theory Spec2Isabelle
  imports Main "HOL-Library.Word"
begin

unbundle bit_operations_syntax

section \<open>SimpleHash256: the data model\<close>

text \<open>
  The embedding follows \<^verbatim>\<open>hash_function.py\<close>. Python integers are unbounded, so the
  state words are modelled as \<^typ>\<open>int\<close> and every mask \<^verbatim>\<open>& 0xFFFFFFFF\<close> of the source is
  written out. The elements of a Python \<^verbatim>\<open>bytes\<close> object are integers in \<open>0..255\<close> by
  type, so a byte is an \<^typ>\<open>8 word\<close>. A Python \<^verbatim>\<open>str\<close> is a sequence of Unicode code
  points, modelled as a list of naturals.
\<close>

type_synonym byte = "8 word"

datatype error = UnicodeEncodeError | OverflowError | ValueError

datatype pydata = PyBytes "byte list" | PyStr "nat list"

record engine =
  state :: "int list"
  buffer :: "byte list"
  counter :: int

definition INITIAL_HASH :: "int list" where
  "INITIAL_HASH =
     [0x6a09e667, 0xbb67ae85, 0x3c6ef372, 0xa54ff53a,
      0x510e527f, 0x9b05688c, 0x1f83d9ab, 0x5be0cd19]"

text \<open>The table \<^verbatim>\<open>K\<close> of the source, row by row as it is laid out there.\<close>

definition K :: "int list" where
  "K =
     [0x428a2f98, 0x71374491, 0xb5c0fbcf, 0xe9b5dba5] @
     [0x3956c25b, 0x59f111f1, 0x923f82a4, 0xab1c5ed5] @
     [0xd807aa98, 0x12835b01, 0x243185be, 0x550c7dc3] @
     [0x72be5d74, 0x80deb1fe, 0x9bdc06a7, 0xc19bf174]"

section \<open>Library operations of Python used by the source\<close>

text \<open>\<^verbatim>\<open>int.from_bytes(bs, byteorder='big')\<close>: never fails; the empty sequence gives 0.\<close>

definition from_bytes_big :: "byte list \<Rightarrow> int" where
  "from_bytes_big bs = foldl (\<lambda>acc b. acc * 256 + uint b) 0 bs"

text \<open>
  \<^verbatim>\<open>x.to_bytes(n, byteorder='big')\<close>: raises \<^verbatim>\<open>OverflowError\<close> when \<open>x\<close> is negative or
  does not fit into \<open>n\<close> bytes.
\<close>

definition to_bytes_big :: "nat \<Rightarrow> int \<Rightarrow> error + byte list" where
  "to_bytes_big n x =
     (if x < 0 \<or> 256 ^ n \<le> x then Inl OverflowError
      else Inr (map (\<lambda>i. word_of_int (x div 256 ^ (n - 1 - i))) [0..<n]))"

text \<open>
  \<^verbatim>\<open>s.encode('utf-8')\<close> on one code point. A lone surrogate cannot be encoded and
  raises \<^verbatim>\<open>UnicodeEncodeError\<close>. A Python string holds no code point above
  \<open>0x10FFFF\<close>; the model answers such a number with the same error.
\<close>

definition utf8_char :: "nat \<Rightarrow> error + byte list" where
  "utf8_char c =
     (if c < 0x80 then Inr [of_nat c]
      else if c < 0x800 then Inr [of_nat (0xC0 + c div 64), of_nat (0x80 + c mod 64)]
      else if 0xD800 \<le> c \<and> c \<le> 0xDFFF then Inl UnicodeEncodeError
      else if c < 0x10000 then
        Inr [of_nat (0xE0 + c div 4096), of_nat (0x80 + c div 64 mod 64),
             of_nat (0x80 + c mod 64)]
      else if c < 0x110000 then
        Inr [of_nat (0xF0 + c div 262144), of_nat (0x80 + c div 4096 mod 64),
             of_nat (0x80 + c div 64 mod 64), of_nat (0x80 + c mod 64)]
      else Inl UnicodeEncodeError)"

fun utf8_encode :: "nat list \<Rightarrow> error + byte list" where
  "utf8_encode [] = Inr []"
| "utf8_encode (c # cs) =
     (case utf8_char c of
        Inl err \<Rightarrow> Inl err
      | Inr bs \<Rightarrow> (case utf8_encode cs of Inl err \<Rightarrow> Inl err | Inr rest \<Rightarrow> Inr (bs @ rest)))"

section \<open>The methods of \<^verbatim>\<open>SimpleHash256\<close>\<close>

text \<open>
  A method that mutates \<^verbatim>\<open>self\<close> takes the engine and returns the outcome of the call
  (\<open>Inl\<close> an exception, \<open>Inr\<close> the returned value) together with the engine as the call
  leaves it, so that the state after a raised exception is part of the model.
\<close>

definition reset :: "engine \<Rightarrow> engine" where
  "reset self = self\<lparr>state := INITIAL_HASH, buffer := [], counter := 0\<rparr>"

text \<open>\<^verbatim>\<open>__init__\<close> calls \<^verbatim>\<open>reset\<close> on an object that has no attributes yet.\<close>

definition SimpleHash256 :: engine where
  "SimpleHash256 = reset \<lparr>state = [], buffer = [], counter = 0\<rparr>"

text \<open>
  \<^verbatim>\<open>_rotate_right\<close>. Every call site passes a constant shift between 2 and 25, so
  \<^verbatim>\<open>32 - shift\<close> is never negative.
\<close>

definition rotate_right :: "int \<Rightarrow> nat \<Rightarrow> int" where
  "rotate_right v shift =
     (let v1 = v AND 0xFFFFFFFF
      in (drop_bit shift v1 OR push_bit (32 - shift) v1) AND 0xFFFFFFFF)"

text \<open>\<^verbatim>\<open>_rotate_left\<close>, used by \<^verbatim>\<open>_mixing_function\<close> only.\<close>

definition rotate_left :: "int \<Rightarrow> nat \<Rightarrow> int" where
  "rotate_left v shift =
     (let v1 = v AND 0xFFFFFFFF
      in (push_bit shift v1 OR drop_bit (32 - shift) v1) AND 0xFFFFFFFF)"

definition pad_message :: "byte list \<Rightarrow> error + byte list" where
  "pad_message message =
     (let msg_len = int (length message);
          message1 = message @ [0x80];
          padding_len = (56 - (msg_len + 1) mod 64) mod 64;
          message2 = message1 @ replicate (nat padding_len) 0
      in case to_bytes_big 8 (msg_len * 8) of
           Inl err \<Rightarrow> Inl err
         | Inr len_bytes \<Rightarrow> Inr (message2 @ len_bytes))"

text \<open>
  \<^verbatim>\<open>_mixing_function\<close>, as the source defines it. No other method of the class calls
  it, and accordingly no other definition of this theory mentions it.
\<close>

definition mixing_function :: "int \<Rightarrow> int \<Rightarrow> int \<Rightarrow> int" where
  "mixing_function a b c =
     (let x = (a XOR b) AND 0xFFFFFFFF;
          x = rotate_left x 7 AND 0xFFFFFFFF;
          x = (x + c) AND 0xFFFFFFFF;
          x = (x XOR rotate_right b 11) AND 0xFFFFFFFF
      in x)"

text \<open>
  The first loop of \<^verbatim>\<open>_compress_block\<close>: the slice \<^verbatim>\<open>block[i:i+4]\<close> is
  \<open>take 4 (drop i block)\<close>, shorter than four bytes when the block is short.
\<close>

definition block_words :: "byte list \<Rightarrow> int list" where
  "block_words block = map (\<lambda>j. from_bytes_big (take 4 (drop (4 * j) block))) [0..<16]"

text \<open>
  One pass of the second loop, appending word \<open>i\<close>. The list holds exactly \<open>i\<close> words
  when the pass starts, so every index read is in range.
\<close>

definition extend_step :: "nat \<Rightarrow> int list \<Rightarrow> int list" where
  "extend_step i words =
     (let s0 = rotate_right (words ! (i - 15)) 7 XOR rotate_right (words ! (i - 15)) 18
                 XOR drop_bit 3 (words ! (i - 15));
          s1 = rotate_right (words ! (i - 2)) 17 XOR rotate_right (words ! (i - 2)) 19
                 XOR drop_bit 10 (words ! (i - 2))
      in words @ [(words ! (i - 16) + s0 + words ! (i - 7) + s1) AND 0xFFFFFFFF])"

definition message_schedule :: "byte list \<Rightarrow> int list" where
  "message_schedule block = fold extend_step [16..<64] (block_words block)"

type_synonym regs = "int \<times> int \<times> int \<times> int \<times> int \<times> int \<times> int \<times> int"

text \<open>One round of the main compression loop.\<close>

fun round_step :: "int list \<Rightarrow> nat \<Rightarrow> regs \<Rightarrow> regs" where
  "round_step words i (a, b, c, d, e, f, g, h) =
     (let S1 = rotate_right e 6 XOR rotate_right e 11 XOR rotate_right e 25;
          ch = (e AND f) XOR (NOT e AND g);
          temp1 = (h + S1 + ch + K ! (i mod 16) + words ! i) AND 0xFFFFFFFF;
          S0 = rotate_right a 2 XOR rotate_right a 13 XOR rotate_right a 22;
          maj = (a AND b) XOR (a AND c) XOR (b AND c);
          temp2 = (S0 + maj) AND 0xFFFFFFFF
      in ((temp1 + temp2) AND 0xFFFFFFFF, a, b, c, (d + temp1) AND 0xFFFFFFFF, e, f, g))"

text \<open>
  \<^verbatim>\<open>_compress_block\<close>. Unpacking \<^verbatim>\<open>self.state\<close> into eight variables raises
  \<^verbatim>\<open>ValueError\<close> when the list does not hold exactly eight words; nothing has been
  written at that point. Only the \<open>state\<close> field is read and written.
\<close>

definition compress_block :: "engine \<Rightarrow> byte list \<Rightarrow> (error + unit) \<times> engine" where
  "compress_block self block =
     (let words = message_schedule block;
          st = state self
      in if length st \<noteq> 8 then (Inl ValueError, self)
         else
           (case fold (round_step words) [0..<64]
                   (st ! 0, st ! 1, st ! 2, st ! 3, st ! 4, st ! 5, st ! 6, st ! 7) of
              (a, b, c, d, e, f, g, h) \<Rightarrow>
                (Inr (),
                 self\<lparr>state :=
                   [(st ! 0 + a) AND 0xFFFFFFFF, (st ! 1 + b) AND 0xFFFFFFFF,
                    (st ! 2 + c) AND 0xFFFFFFFF, (st ! 3 + d) AND 0xFFFFFFFF,
                    (st ! 4 + e) AND 0xFFFFFFFF, (st ! 5 + f) AND 0xFFFFFFFF,
                    (st ! 6 + g) AND 0xFFFFFFFF, (st ! 7 + h) AND 0xFFFFFFFF]\<rparr>)))"

text \<open>The \<^verbatim>\<open>while\<close> loop of \<^verbatim>\<open>update\<close>; an exception of the compression step ends it.\<close>

function process_blocks :: "engine \<Rightarrow> (error + unit) \<times> engine" where
  "process_blocks self =
     (if 64 \<le> length (buffer self) then
        (let block = take 64 (buffer self);
             self1 = self\<lparr>buffer := drop 64 (buffer self)\<rparr>
         in case compress_block self1 block of
              (Inl err, self2) \<Rightarrow> (Inl err, self2)
            | (Inr u, self2) \<Rightarrow> process_blocks self2)
      else (Inr (), self))"
  by pat_completeness auto
termination
  apply (relation "measure (\<lambda>self. length (buffer self))")
   apply simp
  subgoal premises p for self block self1 r self2 u
  proof -
    have "buffer (snd (compress_block self1 block)) = buffer self1"
      by (simp add: compress_block_def Let_def split: prod.split)
    moreover have "self2 = snd (compress_block self1 block)"
      using p(4) by (metis snd_conv)
    ultimately have "length (buffer self2) = length (buffer self) - 64"
      using p(3) by simp
    then show ?thesis
      using p(1) by simp
  qed
  done

declare process_blocks.simps [simp del]

definition update :: "engine \<Rightarrow> pydata \<Rightarrow> (error + unit) \<times> engine" where
  "update self data =
     (case (case data of PyStr s \<Rightarrow> utf8_encode s | PyBytes bs \<Rightarrow> Inr bs) of
        Inl err \<Rightarrow> (Inl err, self)
      | Inr bytes \<Rightarrow>
          process_blocks
            (self\<lparr>buffer := buffer self @ bytes,
                  counter := counter self + int (length bytes)\<rparr>))"

text \<open>
  The block loop of \<^verbatim>\<open>digest\<close> over the offsets \<^verbatim>\<open>range(0, len(padded), 64)\<close>, and the
  loop that serialises the state words.
\<close>

fun digest_loop :: "byte list \<Rightarrow> nat list \<Rightarrow> engine \<Rightarrow> (error + unit) \<times> engine" where
  "digest_loop padded [] self = (Inr (), self)"
| "digest_loop padded (i # offsets) self =
     (case compress_block self (take 64 (drop i padded)) of
        (Inl err, self1) \<Rightarrow> (Inl err, self1)
      | (Inr u, self1) \<Rightarrow> digest_loop padded offsets self1)"

fun words_to_bytes :: "int list \<Rightarrow> error + byte list" where
  "words_to_bytes [] = Inr []"
| "words_to_bytes (w # ws) =
     (case to_bytes_big 4 w of
        Inl err \<Rightarrow> Inl err
      | Inr bs \<Rightarrow> (case words_to_bytes ws of Inl err \<Rightarrow> Inl err | Inr rest \<Rightarrow> Inr (bs @ rest)))"

definition digest :: "engine \<Rightarrow> (error + byte list) \<times> engine" where
  "digest self =
     (let final_buffer = buffer self
      in case pad_message final_buffer of
           Inl err \<Rightarrow> (Inl err, self)
         | Inr padded \<Rightarrow>
             (let temp_state = state self;
                  offsets = map (\<lambda>k. 64 * k) [0..<(length padded + 63) div 64]
              in case digest_loop padded offsets self of
                   (Inl err, self1) \<Rightarrow> (Inl err, self1)
                 | (Inr u, self1) \<Rightarrow>
                     (case words_to_bytes (state self1) of
                        Inl err \<Rightarrow> (Inl err, self1)
                      | Inr result \<Rightarrow> (Inr result, self1\<lparr>state := temp_state\<rparr>))))"

section \<open>Call sequences and the engine invariant\<close>

text \<open>
  A caller drives the engine through its public methods. \<open>after_call\<close> is the engine
  a call leaves behind (also when the call raised and the caller caught the exception),
  \<open>digests\<close> collects what the \<^verbatim>\<open>digest\<close> calls of a sequence return.
\<close>

datatype call = Update pydata | Digest | Reset

fun after_call :: "engine \<Rightarrow> call \<Rightarrow> engine" where
  "after_call self (Update d) = snd (update self d)"
| "after_call self Digest = snd (digest self)"
| "after_call self Reset = reset self"

fun after_calls :: "engine \<Rightarrow> call list \<Rightarrow> engine" where
  "after_calls self [] = self"
| "after_calls self (c # cs) = after_calls (after_call self c) cs"

fun digests :: "engine \<Rightarrow> call list \<Rightarrow> (error + byte list) list" where
  "digests self [] = []"
| "digests self (Digest # cs) = fst (digest self) # digests (after_call self Digest) cs"
| "digests self (c # cs) = digests (after_call self c) cs"

definition is_empty_update :: "call \<Rightarrow> bool" where
  "is_empty_update c \<longleftrightarrow> c = Update (PyBytes []) \<or> c = Update (PyStr [])"

definition word32 :: "int \<Rightarrow> bool" where
  "word32 w \<longleftrightarrow> 0 \<le> w \<and> w \<le> 0xFFFFFFFF"

definition engine_inv :: "engine \<Rightarrow> bool" where
  "engine_inv self \<longleftrightarrow>
     length (state self) = 8 \<and> list_all word32 (state self) \<and> length (buffer self) < 64"

text \<open>The state that \<^verbatim>\<open>_compress_block\<close> writes, read off the model of the method.\<close>

definition compress_state :: "int list \<Rightarrow> byte list \<Rightarrow> int list" where
  "compress_state st block =
     state (snd (compress_block \<lparr>state = st, buffer = [], counter = 0\<rparr> block))"

section \<open>The compression algorithm as the specification words it\<close>

text \<open>
  The definitions named \<open>spec_\<close> follow section 4.1 of the specification, not the
  source: values are 32-bit words, so every sum is taken modulo \<open>2^32\<close> by the type;
  the right rotation by \<open>r\<close> is \<open>(x >> r) | (x << (32 - r))\<close>; block word \<open>i\<close> below 16
  is the big-endian reading of bytes \<open>4i .. 4i+3\<close> and word \<open>i\<close> from 16 on is given by the
  recurrence; round \<open>i\<close> uses constant \<open>i mod 16\<close>; the output adds the working variables
  onto the input state. The specification gives no values for the sixteen constants, so
  they are those of the source, as words. \<open>regs_uint\<close> reads eight such words as integers.
\<close>

definition spec_rotr :: "nat \<Rightarrow> 32 word \<Rightarrow> 32 word" where
  "spec_rotr r x = drop_bit r x OR push_bit (32 - r) x"

definition spec_sigma0 :: "32 word \<Rightarrow> 32 word" where
  "spec_sigma0 x = spec_rotr 7 x XOR spec_rotr 18 x XOR drop_bit 3 x"

definition spec_sigma1 :: "32 word \<Rightarrow> 32 word" where
  "spec_sigma1 x = spec_rotr 17 x XOR spec_rotr 19 x XOR drop_bit 10 x"

definition spec_be32 :: "byte list \<Rightarrow> nat \<Rightarrow> 32 word" where
  "spec_be32 block i =
     ucast (block ! (4 * i)) * 2 ^ 24 + ucast (block ! (4 * i + 1)) * 2 ^ 16 +
     ucast (block ! (4 * i + 2)) * 2 ^ 8 + ucast (block ! (4 * i + 3))"

function spec_w :: "byte list \<Rightarrow> nat \<Rightarrow> 32 word" where
  "spec_w block i =
     (if i < 16 then spec_be32 block i
      else spec_w block (i - 16) + spec_sigma0 (spec_w block (i - 15)) +
           spec_w block (i - 7) + spec_sigma1 (spec_w block (i - 2)))"
  by pat_completeness auto
termination
  by (relation "measure snd") auto
declare spec_w.simps [simp del]

type_synonym wregs =
  "32 word \<times> 32 word \<times> 32 word \<times> 32 word \<times> 32 word \<times> 32 word \<times> 32 word \<times> 32 word"

fun spec_round :: "32 word \<Rightarrow> 32 word \<Rightarrow> wregs \<Rightarrow> wregs" where
  "spec_round k w (a, b, c, d, e, f, g, h) =
     (let S1 = spec_rotr 6 e XOR spec_rotr 11 e XOR spec_rotr 25 e;
          ch = (e AND f) XOR (NOT e AND g);
          temp1 = h + S1 + ch + k + w;
          S0 = spec_rotr 2 a XOR spec_rotr 13 a XOR spec_rotr 22 a;
          maj = (a AND b) XOR (a AND c) XOR (b AND c);
          temp2 = S0 + maj
      in (temp1 + temp2, a, b, c, d + temp1, e, f, g))"

definition spec_K :: "32 word list" where
  "spec_K = map word_of_int K"

definition spec_compress :: "32 word list \<Rightarrow> byte list \<Rightarrow> 32 word list" where
  "spec_compress st block =
     (case fold (\<lambda>i. spec_round (spec_K ! (i mod 16)) (spec_w block i)) [0..<64]
             (st ! 0, st ! 1, st ! 2, st ! 3, st ! 4, st ! 5, st ! 6, st ! 7) of
        (a, b, c, d, e, f, g, h) \<Rightarrow>
          [st ! 0 + a, st ! 1 + b, st ! 2 + c, st ! 3 + d,
           st ! 4 + e, st ! 5 + f, st ! 6 + g, st ! 7 + h])"

fun regs_uint :: "wregs \<Rightarrow> regs" where
  "regs_uint (a, b, c, d, e, f, g, h) =
     (uint a, uint b, uint c, uint d, uint e, uint f, uint g, uint h)"

section \<open>The compression step as a state transformer\<close>

lemma compress_block_buffer [simp]: "buffer (snd (compress_block self block)) = buffer self"
  by (simp add: compress_block_def Let_def split: prod.split)

lemma compress_block_counter [simp]: "counter (snd (compress_block self block)) = counter self"
  by (simp add: compress_block_def Let_def split: prod.split)

lemma word32_mask: "word32 (x AND 0xFFFFFFFF)"
  unfolding word32_def
  by (simp add: AND_upper2)

lemma compress_block_fst: "length (state self) = 8 \<Longrightarrow> fst (compress_block self block) = Inr ()"
  by (simp add: compress_block_def Let_def split: prod.split)

lemma compress_block_state_len:
  "length (state self) = 8 \<Longrightarrow> length (state (snd (compress_block self block))) = 8"
  by (simp add: compress_block_def Let_def split: prod.split)

lemma compress_block_state_word32:
  "length (state self) = 8 \<Longrightarrow> list_all word32 (state (snd (compress_block self block)))"
  by (simp add: compress_block_def Let_def word32_mask split: prod.split)

lemma compress_block_frame:
  "snd (compress_block self block) = self\<lparr>state := state (snd (compress_block self block))\<rparr>"
  by (simp add: compress_block_def Let_def split: prod.split)

lemma compress_block_buffer_upd:
  "compress_block (self\<lparr>buffer := x\<rparr>) block =
     (fst (compress_block self block), (snd (compress_block self block))\<lparr>buffer := x\<rparr>)"
  by (simp add: compress_block_def Let_def split: prod.split)

lemma compress_block_counter_upd:
  "compress_block (self\<lparr>counter := x\<rparr>) block =
     (fst (compress_block self block), (snd (compress_block self block))\<lparr>counter := x\<rparr>)"
  by (simp add: compress_block_def Let_def split: prod.split)

lemma compress_block_eq:
  "length (state self) = 8 \<Longrightarrow>
     compress_block self block = (Inr (), snd (compress_block self block))"
  using compress_block_fst [of self block] by (metis prod.collapse)

lemma process_blocks_short:
  "length (buffer self) < 64 \<Longrightarrow> process_blocks self = (Inr (), self)"
  by (simp add: process_blocks.simps)

lemma process_blocks_long:
  "64 \<le> length (buffer self) \<Longrightarrow> length (state self) = 8 \<Longrightarrow>
     process_blocks self =
       process_blocks (snd (compress_block (self\<lparr>buffer := drop 64 (buffer self)\<rparr>)
                              (take 64 (buffer self))))"
  apply (subst process_blocks.simps)
  apply (simp add: Let_def)
  apply (subst compress_block_eq)
   apply simp
  apply simp
  done

lemma process_blocks_ok:
  "length (state self) = 8 \<Longrightarrow>
     fst (process_blocks self) = Inr () \<and>
     length (state (snd (process_blocks self))) = 8 \<and>
     length (buffer (snd (process_blocks self))) < 64 \<and>
     counter (snd (process_blocks self)) = counter self"
proof (induction self rule: process_blocks.induct)
  case (1 self)
  show ?case
  proof (cases "64 \<le> length (buffer self)")
    case False
    then show ?thesis using "1.prems" by (simp add: process_blocks_short)
  next
    case True
    let ?s1 = "self\<lparr>buffer := drop 64 (buffer self)\<rparr>"
    let ?b = "take 64 (buffer self)"
    let ?s2 = "snd (compress_block ?s1 ?b)"
    have len1: "length (state ?s1) = 8" using "1.prems" by simp
    have eq: "compress_block ?s1 ?b = (Inr (), ?s2)"
      using len1 by (rule compress_block_eq)
    have len2: "length (state ?s2) = 8"
      using len1 by (rule compress_block_state_len)
    have ih: "fst (process_blocks ?s2) = Inr () \<and>
       length (state (snd (process_blocks ?s2))) = 8 \<and>
       length (buffer (snd (process_blocks ?s2))) < 64 \<and>
       counter (snd (process_blocks ?s2)) = counter ?s2"
      using "1.IH" [OF True refl refl eq [symmetric] refl] len2 by blast
    have "process_blocks self = process_blocks ?s2"
      using True "1.prems" by (rule process_blocks_long)
    then show ?thesis using ih by simp
  qed
qed

lemma process_blocks_word32:
  "length (state self) = 8 \<Longrightarrow> list_all word32 (state self) \<Longrightarrow>
     list_all word32 (state (snd (process_blocks self)))"
proof (induction self rule: process_blocks.induct)
  case (1 self)
  show ?case
  proof (cases "64 \<le> length (buffer self)")
    case False
    then show ?thesis using "1.prems" by (simp add: process_blocks_short)
  next
    case True
    let ?s1 = "self\<lparr>buffer := drop 64 (buffer self)\<rparr>"
    let ?b = "take 64 (buffer self)"
    let ?s2 = "snd (compress_block ?s1 ?b)"
    have len1: "length (state ?s1) = 8" using "1.prems" by simp
    have eq: "compress_block ?s1 ?b = (Inr (), ?s2)"
      using len1 by (rule compress_block_eq)
    have len2: "length (state ?s2) = 8"
      using len1 by (rule compress_block_state_len)
    have w2: "list_all word32 (state ?s2)"
      using len1 by (rule compress_block_state_word32)
    have ih: "list_all word32 (state (snd (process_blocks ?s2)))"
      using "1.IH" [OF True refl refl eq [symmetric] refl len2 w2] .
    have "process_blocks self = process_blocks ?s2"
      using True "1.prems"(1) by (rule process_blocks_long)
    then show ?thesis using ih by simp
  qed
qed

lemma process_blocks_counter_upd:
  "length (state self) = 8 \<Longrightarrow>
     snd (process_blocks (self\<lparr>counter := c\<rparr>)) = (snd (process_blocks self))\<lparr>counter := c\<rparr>"
proof (induction self rule: process_blocks.induct)
  case (1 self)
  show ?case
  proof (cases "64 \<le> length (buffer self)")
    case False
    then show ?thesis by (simp add: process_blocks_short)
  next
    case True
    let ?s1 = "self\<lparr>buffer := drop 64 (buffer self)\<rparr>"
    let ?b = "take 64 (buffer self)"
    let ?s2 = "snd (compress_block ?s1 ?b)"
    have len1: "length (state ?s1) = 8" using "1.prems" by simp
    have eq: "compress_block ?s1 ?b = (Inr (), ?s2)"
      using len1 by (rule compress_block_eq)
    have len2: "length (state ?s2) = 8"
      using len1 by (rule compress_block_state_len)
    have ih: "snd (process_blocks (?s2\<lparr>counter := c\<rparr>)) = (snd (process_blocks ?s2))\<lparr>counter := c\<rparr>"
      using "1.IH" [OF True refl refl eq [symmetric] refl len2] .
    have a: "process_blocks self = process_blocks ?s2"
      using True "1.prems" by (rule process_blocks_long)
    have "process_blocks (self\<lparr>counter := c\<rparr>) =
        process_blocks (snd (compress_block ((self\<lparr>counter := c\<rparr>)\<lparr>buffer := drop 64 (buffer (self\<lparr>counter := c\<rparr>))\<rparr>)
                              (take 64 (buffer (self\<lparr>counter := c\<rparr>)))))"
      using True "1.prems" by (intro process_blocks_long) simp_all
    also have "(self\<lparr>counter := c\<rparr>)\<lparr>buffer := drop 64 (buffer (self\<lparr>counter := c\<rparr>))\<rparr> = ?s1\<lparr>counter := c\<rparr>"
      by simp
    also have "snd (compress_block (?s1\<lparr>counter := c\<rparr>) (take 64 (buffer (self\<lparr>counter := c\<rparr>)))) = ?s2\<lparr>counter := c\<rparr>"
      by (simp add: compress_block_counter_upd)
    finally show ?thesis using ih a by simp
  qed
qed

lemma process_blocks_append:
  "length (state self) = 8 \<Longrightarrow>
     process_blocks (self\<lparr>buffer := buffer self @ bs\<rparr>) =
     process_blocks ((snd (process_blocks self))\<lparr>buffer := buffer (snd (process_blocks self)) @ bs\<rparr>)"
proof (induction self rule: process_blocks.induct)
  case (1 self)
  show ?case
  proof (cases "64 \<le> length (buffer self)")
    case False
    then show ?thesis by (simp add: process_blocks_short)
  next
    case True
    let ?s1 = "self\<lparr>buffer := drop 64 (buffer self)\<rparr>"
    let ?b = "take 64 (buffer self)"
    let ?s2 = "snd (compress_block ?s1 ?b)"
    let ?t = "self\<lparr>buffer := buffer self @ bs\<rparr>"
    have len1: "length (state ?s1) = 8" using "1.prems" by simp
    have eq: "compress_block ?s1 ?b = (Inr (), ?s2)"
      using len1 by (rule compress_block_eq)
    have len2: "length (state ?s2) = 8"
      using len1 by (rule compress_block_state_len)
    have ih: "process_blocks (?s2\<lparr>buffer := buffer ?s2 @ bs\<rparr>) =
        process_blocks ((snd (process_blocks ?s2))\<lparr>buffer := buffer (snd (process_blocks ?s2)) @ bs\<rparr>)"
      using "1.IH" [OF True refl refl eq [symmetric] refl len2] .
    have a: "process_blocks self = process_blocks ?s2"
      using True "1.prems" by (rule process_blocks_long)
    have "process_blocks ?t =
        process_blocks (snd (compress_block (?t\<lparr>buffer := drop 64 (buffer ?t)\<rparr>) (take 64 (buffer ?t))))"
      using True "1.prems" by (intro process_blocks_long) simp_all
    also have "take 64 (buffer ?t) = ?b" using True by simp
    also have "?t\<lparr>buffer := drop 64 (buffer ?t)\<rparr> = ?s1\<lparr>buffer := drop 64 (buffer self) @ bs\<rparr>"
      using True by simp
    also have "snd (compress_block (?s1\<lparr>buffer := drop 64 (buffer self) @ bs\<rparr>) ?b) =
        ?s2\<lparr>buffer := buffer ?s2 @ bs\<rparr>"
      by (simp add: compress_block_buffer_upd)
    finally show ?thesis using ih a by simp
  qed
qed

section \<open>Padding and the digest loop\<close>

lemma to_bytes_big_ok:
  "0 \<le> x \<Longrightarrow> x < 256 ^ n \<Longrightarrow>
     to_bytes_big n x = Inr (map (\<lambda>i. word_of_int (x div 256 ^ (n - 1 - i))) [0..<n])"
  by (simp add: to_bytes_big_def)

lemma len_bits_fit:
  assumes "length (message :: byte list) < 2 ^ 61"
  shows "int (length message) * 8 < 256 ^ 8"
proof -
  have "int (length message) < int (2 ^ 61)" using assms by (rule iffD2 [OF of_nat_less_iff])
  then show ?thesis by simp
qed

lemma to_bytes_big_length: "to_bytes_big n x = Inr bs \<Longrightarrow> length bs = n"
  by (auto simp: to_bytes_big_def split: if_splits)

lemma padding_len_nat:
  "nat ((56 - (int n + 1) mod 64) mod 64) =
     (if (n + 1) mod 64 \<le> 56 then 56 - (n + 1) mod 64 else 120 - (n + 1) mod 64)"
proof -
  define p where "p = (n + 1) mod 64"
  have p64: "p < 64" by (simp add: p_def)
  have ip: "(int n + 1) mod 64 = int p"
    unfolding p_def by (simp add: zmod_int add.commute)
  have main: "nat ((56 - int p) mod 64) = (if p \<le> 56 then 56 - p else 120 - p)"
  proof (cases "p \<le> 56")
    case True
    then have "(56 - int p) mod 64 = 56 - int p"
      by (intro mod_pos_pos_trivial) simp_all
    moreover have "nat (56 - int p) = 56 - p" by arith
    ultimately show ?thesis using True by simp
  next
    case False
    have "(56 - int p) mod 64 = (56 - int p + 64) mod 64"
      by (simp only: mod_add_self2)
    also have "\<dots> = 56 - int p + 64"
      using False p64 by (intro mod_pos_pos_trivial) simp_all
    finally have "(56 - int p) mod 64 = 56 - int p + 64" .
    moreover have "nat (56 - int p + 64) = 120 - p" by arith
    ultimately show ?thesis using False by simp
  qed
  show ?thesis
    unfolding ip p_def [symmetric] by (rule main)
qed

lemma pad_arith: "(n + 1 + nat ((56 - (int n + 1) mod 64) mod 64) + 8) mod 64 = 0"
proof -
  define p where "p = (n + 1) mod 64"
  define q where "q = (n + 1) div 64"
  have p64: "p < 64" by (simp add: p_def)
  have n1: "n + 1 = 64 * q + p" by (simp add: p_def q_def)
  show ?thesis
  proof (cases "p \<le> 56")
    case True
    then have "n + 1 + nat ((56 - (int n + 1) mod 64) mod 64) + 8 = 64 * (q + 1)"
      unfolding padding_len_nat using n1 p_def by simp
    then show ?thesis by (metis mod_mult_self1_is_0)
  next
    case False
    then have "n + 1 + nat ((56 - (int n + 1) mod 64) mod 64) + 8 = 64 * (q + 2)"
      unfolding padding_len_nat using n1 p_def p64 by simp
    then show ?thesis by (metis mod_mult_self1_is_0)
  qed
qed

lemma pad_message_Inr:
  assumes "length message < 2 ^ 61"
  shows "\<exists>padded. pad_message message = Inr padded"
proof -
  have "\<not> (int (length message) * 8 < 0 \<or> 256 ^ 8 \<le> int (length message) * 8)"
    using len_bits_fit [OF assms] by linarith
  then show ?thesis
    by (simp only: pad_message_def Let_def to_bytes_big_def if_False sum.case) blast
qed

lemma pad_message_length:
  assumes "pad_message message = Inr padded"
  shows "length padded mod 64 = 0 \<and> 64 \<le> length padded"
proof -
  let ?n = "length message"
  let ?k = "nat ((56 - (int ?n + 1) mod 64) mod 64)"
  obtain lb where lb: "to_bytes_big 8 (int ?n * 8) = Inr lb"
    and p: "padded = (message @ [0x80]) @ replicate ?k 0 @ lb"
  proof (cases "to_bytes_big 8 (int ?n * 8)")
    case (Inl err)
    then have "pad_message message = Inl err"
      by (simp only: pad_message_def Let_def sum.case)
    then show ?thesis using assms by simp
  next
    case (Inr lb)
    then have "pad_message message = Inr ((message @ [0x80]) @ replicate ?k 0 @ lb)"
      by (simp only: pad_message_def Let_def sum.case append_assoc)
    then show ?thesis using assms Inr that by simp
  qed
  have "length lb = 8"
    using lb by (rule to_bytes_big_length)
  then have len: "length padded = ?n + 1 + ?k + 8" using p by simp
  have m: "length padded mod 64 = 0"
    unfolding len by (rule pad_arith)
  moreover have "0 < length padded" unfolding len by simp
  ultimately have "64 \<le> length padded"
    by (simp add: mod_eq_0_iff_dvd dvd_imp_le)
  then show ?thesis using m by simp
qed

lemma compress_block_alt:
  "compress_block self block =
     (if length (state self) \<noteq> 8 then (Inl ValueError, self)
      else (Inr (), self\<lparr>state := compress_state (state self) block\<rparr>))"
  by (simp add: compress_state_def compress_block_def Let_def split: prod.split)

lemma compress_block_state_cong:
  assumes "state self = state self'"
  shows "fst (compress_block self block) = fst (compress_block self' block) \<and>
     state (snd (compress_block self block)) = state (snd (compress_block self' block))"
  using assms by (simp add: compress_block_alt)

lemma digest_loop_Cons:
  "length (state self) = 8 \<Longrightarrow>
     digest_loop padded (i # offsets) self =
       digest_loop padded offsets
         (self\<lparr>state := compress_state (state self) (take 64 (drop i padded))\<rparr>)"
  by (simp add: compress_block_alt)

lemma compress_state_len: "length st = 8 \<Longrightarrow> length (compress_state st block) = 8"
  using compress_block_state_len [of "\<lparr>state = st, buffer = [], counter = 0\<rparr>" block]
  by (simp add: compress_state_def)

lemma compress_state_word32: "length st = 8 \<Longrightarrow> list_all word32 (compress_state st block)"
  using compress_block_state_word32 [of "\<lparr>state = st, buffer = [], counter = 0\<rparr>" block]
  by (simp add: compress_state_def)

lemma digest_loop_ok:
  "length (state self) = 8 \<Longrightarrow>
     fst (digest_loop padded offsets self) = Inr () \<and>
     length (state (snd (digest_loop padded offsets self))) = 8 \<and>
     snd (digest_loop padded offsets self) =
       self\<lparr>state := state (snd (digest_loop padded offsets self))\<rparr>"
proof (induction offsets arbitrary: self)
  case Nil
  then show ?case by simp
next
  case (Cons i offsets)
  let ?s1 = "self\<lparr>state := compress_state (state self) (take 64 (drop i padded))\<rparr>"
  have len1: "length (state ?s1) = 8"
    using Cons.prems by (simp add: compress_state_len)
  have step: "digest_loop padded (i # offsets) self = digest_loop padded offsets ?s1"
    using Cons.prems by (rule digest_loop_Cons)
  have "snd (digest_loop padded offsets ?s1) =
      ?s1\<lparr>state := state (snd (digest_loop padded offsets ?s1))\<rparr>"
    using Cons.IH [OF len1] by blast
  also have "\<dots> = self\<lparr>state := state (snd (digest_loop padded offsets ?s1))\<rparr>"
    by simp
  finally show ?case
    unfolding step using Cons.IH [OF len1] by simp
qed

lemma digest_loop_word32:
  "length (state self) = 8 \<Longrightarrow> offsets \<noteq> [] \<or> list_all word32 (state self) \<Longrightarrow>
     list_all word32 (state (snd (digest_loop padded offsets self)))"
proof (induction offsets arbitrary: self)
  case Nil
  then show ?case by simp
next
  case (Cons i offsets)
  let ?s1 = "self\<lparr>state := compress_state (state self) (take 64 (drop i padded))\<rparr>"
  have len1: "length (state ?s1) = 8"
    using Cons.prems(1) by (simp add: compress_state_len)
  have w1: "list_all word32 (state ?s1)"
    using Cons.prems(1) by (simp add: compress_state_word32)
  have step: "digest_loop padded (i # offsets) self = digest_loop padded offsets ?s1"
    using Cons.prems(1) by (rule digest_loop_Cons)
  show ?case
    unfolding step using Cons.IH [OF len1] w1 by blast
qed

lemma digest_loop_state_cong:
  "state self = state self' \<Longrightarrow>
     fst (digest_loop padded offsets self) = fst (digest_loop padded offsets self') \<and>
     state (snd (digest_loop padded offsets self)) = state (snd (digest_loop padded offsets self'))"
proof (induction offsets arbitrary: self self')
  case Nil
  then show ?case by simp
next
  case (Cons i offsets)
  let ?b = "take 64 (drop i padded)"
  show ?case
  proof (cases "length (state self) = 8")
    case False
    then show ?thesis using Cons.prems by (simp add: compress_block_alt)
  next
    case True
    then have True': "length (state self') = 8" using Cons.prems by simp
    have "state (self\<lparr>state := compress_state (state self) ?b\<rparr>) =
        state (self'\<lparr>state := compress_state (state self') ?b\<rparr>)"
      using Cons.prems by simp
    then show ?thesis
      unfolding digest_loop_Cons [OF True] digest_loop_Cons [OF True'] by (rule Cons.IH)
  qed
qed

lemma to_bytes_big_word32:
  "word32 w \<Longrightarrow> \<exists>bs. to_bytes_big 4 w = Inr bs \<and> length bs = 4"
  by (simp add: to_bytes_big_def word32_def)

lemma words_to_bytes_ok:
  "list_all word32 ws \<Longrightarrow> \<exists>bs. words_to_bytes ws = Inr bs \<and> length bs = 4 * length ws"
proof (induction ws)
  case Nil
  then show ?case by simp
next
  case (Cons w ws)
  obtain b where b: "to_bytes_big 4 w = Inr b" "length b = 4"
    using Cons.prems to_bytes_big_word32 [of w] by auto
  obtain r where r: "words_to_bytes ws = Inr r" "length r = 4 * length ws"
    using Cons by auto
  show ?case using b r by simp
qed

section \<open>Update and digest on well-formed engines\<close>

lemma update_bytes:
  "update self (PyBytes bs) =
     process_blocks (self\<lparr>buffer := buffer self @ bs, counter := counter self + int (length bs)\<rparr>)"
  by (simp add: update_def)

lemma update_str:
  "update self (PyStr s) =
     (case utf8_encode s of Inl err \<Rightarrow> (Inl err, self) | Inr bs \<Rightarrow> update self (PyBytes bs))"
  by (simp add: update_def split: sum.split)

lemma update_bytes_ok:
  assumes "length (state self) = 8"
  shows "fst (update self (PyBytes bs)) = Inr ()"
    and "length (state (snd (update self (PyBytes bs)))) = 8"
    and "length (buffer (snd (update self (PyBytes bs)))) < 64"
    and "counter (snd (update self (PyBytes bs))) = counter self + int (length bs)"
  using process_blocks_ok [of "self\<lparr>buffer := buffer self @ bs, counter := counter self + int (length bs)\<rparr>"] assms
  by (simp_all add: update_bytes)

lemma update_bytes_word32:
  assumes "length (state self) = 8" and "list_all word32 (state self)"
  shows "list_all word32 (state (snd (update self (PyBytes bs))))"
  using process_blocks_word32 [of "self\<lparr>buffer := buffer self @ bs, counter := counter self + int (length bs)\<rparr>"] assms
  by (simp add: update_bytes)

lemma update_bytes_inv: "engine_inv self \<Longrightarrow> engine_inv (snd (update self (PyBytes bs)))"
  unfolding engine_inv_def
  using update_bytes_ok(2,3) [of self bs] update_bytes_word32 [of self bs] by blast

lemma update_inv: "engine_inv self \<Longrightarrow> engine_inv (snd (update self d))"
proof (cases d)
  case (PyBytes bs)
  assume "engine_inv self"
  then show ?thesis unfolding PyBytes by (rule update_bytes_inv)
next
  case (PyStr s)
  assume a: "engine_inv self"
  show ?thesis
  proof (cases "utf8_encode s")
    case (Inl err)
    then show ?thesis using a by (simp add: PyStr update_str)
  next
    case (Inr bs)
    then show ?thesis using update_bytes_inv [OF a, of bs] by (simp add: PyStr update_str)
  qed
qed

lemma update_empty:
  "length (buffer self) < 64 \<Longrightarrow> update self (PyBytes []) = (Inr (), self)"
  by (simp add: update_bytes process_blocks_short)

lemma update_append:
  assumes "length (state self) = 8"
  shows "update (snd (update self (PyBytes a))) (PyBytes b) = update self (PyBytes (a @ b))"
proof -
  let ?c = "counter self + int (length a) + int (length b)"
  let ?e1 = "self\<lparr>buffer := buffer self @ a, counter := counter self + int (length a)\<rparr>"
  let ?e2 = "snd (process_blocks ?e1)"
  have len1: "length (state ?e1) = 8" using assms by simp
  have cnt: "counter ?e2 = counter self + int (length a)"
    using process_blocks_ok [OF len1] by simp
  have len1c: "length (state (?e1\<lparr>counter := ?c\<rparr>)) = 8" using assms by simp
  have "self\<lparr>buffer := buffer self @ a @ b, counter := counter self + int (length (a @ b))\<rparr> =
      (?e1\<lparr>counter := ?c\<rparr>)\<lparr>buffer := buffer (?e1\<lparr>counter := ?c\<rparr>) @ b\<rparr>"
    by simp
  then have "update self (PyBytes (a @ b)) =
      process_blocks ((?e1\<lparr>counter := ?c\<rparr>)\<lparr>buffer := buffer (?e1\<lparr>counter := ?c\<rparr>) @ b\<rparr>)"
    by (simp only: update_bytes append_assoc)
  also have "\<dots> = process_blocks ((snd (process_blocks (?e1\<lparr>counter := ?c\<rparr>)))
       \<lparr>buffer := buffer (snd (process_blocks (?e1\<lparr>counter := ?c\<rparr>))) @ b\<rparr>)"
    using len1c by (rule process_blocks_append)
  also have "snd (process_blocks (?e1\<lparr>counter := ?c\<rparr>)) = ?e2\<lparr>counter := ?c\<rparr>"
    using len1 by (rule process_blocks_counter_upd)
  also have "(?e2\<lparr>counter := ?c\<rparr>)\<lparr>buffer := buffer (?e2\<lparr>counter := ?c\<rparr>) @ b\<rparr> =
      ?e2\<lparr>buffer := buffer ?e2 @ b, counter := counter ?e2 + int (length b)\<rparr>"
    by (simp add: cnt)
  also have "process_blocks \<dots> = update ?e2 (PyBytes b)"
    by (simp only: update_bytes)
  also have "?e2 = snd (update self (PyBytes a))"
    by (simp only: update_bytes)
  finally show ?thesis by simp
qed

lemma digest_ok:
  assumes len: "length (state self) = 8" and buf: "length (buffer self) < 2 ^ 61"
  shows "\<exists>d. digest self = (Inr d, self) \<and> length d = 32"
proof -
  obtain padded where p: "pad_message (buffer self) = Inr padded"
    using pad_message_Inr [OF buf] by blast
  let ?offs = "map (\<lambda>k. 64 * k) [0..<(length padded + 63) div 64]"
  let ?r = "digest_loop padded ?offs self"
  have "64 \<le> length padded" using pad_message_length [OF p] by simp
  then have "0 < (length padded + 63) div 64" by simp
  then have ne: "?offs \<noteq> []" by simp
  have ok: "fst ?r = Inr ()" "length (state (snd ?r)) = 8"
      "snd ?r = self\<lparr>state := state (snd ?r)\<rparr>"
    using digest_loop_ok [OF len, of padded ?offs] by blast+
  have w: "list_all word32 (state (snd ?r))"
    using len ne by (intro digest_loop_word32) simp_all
  obtain d where d: "words_to_bytes (state (snd ?r)) = Inr d" "length d = 4 * length (state (snd ?r))"
    using words_to_bytes_ok [OF w] by blast
  have r: "?r = (Inr (), snd ?r)" using ok(1) by (metis prod.collapse)
  have restored: "(snd ?r)\<lparr>state := state self\<rparr> = self"
    by (subst ok(3)) simp
  have "digest self = (Inr d, (snd ?r)\<lparr>state := state self\<rparr>)"
    unfolding digest_def Let_def p sum.case
    by (subst r) (simp add: d(1))
  then show ?thesis using restored d(2) ok(2) by simp
qed

section \<open>Reachable engines\<close>

lemma reset_inv: "engine_inv (reset self)"
  by (simp add: engine_inv_def reset_def INITIAL_HASH_def word32_def)

lemma SimpleHash256_inv: "engine_inv SimpleHash256"
  unfolding SimpleHash256_def by (rule reset_inv)

lemma digest_inv_eq:
  assumes "engine_inv self"
  shows "\<exists>d. digest self = (Inr d, self) \<and> length d = 32"
proof -
  have "length (buffer self) < 64" using assms by (simp add: engine_inv_def)
  also have "(64::nat) < 2 ^ 61" by simp
  finally have "length (buffer self) < 2 ^ 61" .
  moreover have "length (state self) = 8" using assms by (simp add: engine_inv_def)
  ultimately show ?thesis by (intro digest_ok)
qed

lemma digest_snd: "engine_inv self \<Longrightarrow> snd (digest self) = self"
  using digest_inv_eq [of self] by auto

lemma after_call_inv: "engine_inv self \<Longrightarrow> engine_inv (after_call self c)"
  by (cases c) (simp_all add: update_inv digest_snd reset_inv)

lemma after_calls_inv: "engine_inv self \<Longrightarrow> engine_inv (after_calls self cs)"
  by (induction cs arbitrary: self) (simp_all add: after_call_inv)

lemma process_blocks_returns:
  "fst (process_blocks self) = Inr u \<Longrightarrow> length (buffer (snd (process_blocks self))) < 64"
proof (induction self rule: process_blocks.induct)
  case (1 self)
  show ?case
  proof (cases "64 \<le> length (buffer self)")
    case False
    then show ?thesis by (simp add: process_blocks_short)
  next
    case True
    let ?s1 = "self\<lparr>buffer := drop 64 (buffer self)\<rparr>"
    let ?b = "take 64 (buffer self)"
    obtain r s2 where c: "compress_block ?s1 ?b = (r, s2)" by (cases "compress_block ?s1 ?b")
    show ?thesis
    proof (cases r)
      case (Inl err)
      have "process_blocks self = (Inl err, s2)"
        by (subst process_blocks.simps) (simp add: True Let_def c Inl)
      then show ?thesis using "1.prems" by simp
    next
      case (Inr v)
      have eq: "process_blocks self = process_blocks s2"
        by (subst process_blocks.simps) (simp add: True Let_def c Inr)
      have "fst (process_blocks s2) = Inr u" using "1.prems" eq by simp
      then have "length (buffer (snd (process_blocks s2))) < 64"
        by (rule "1.IH" [OF True refl refl c [symmetric] Inr])
      then show ?thesis using eq by simp
    qed
  qed
qed

lemma update_returns:
  "fst (update self d) = Inr u \<Longrightarrow> length (buffer (snd (update self d))) < 64"
proof (cases d)
  case (PyBytes bs)
  assume "fst (update self d) = Inr u"
  then show ?thesis unfolding PyBytes update_bytes by (rule process_blocks_returns)
next
  case (PyStr s)
  assume a: "fst (update self d) = Inr u"
  show ?thesis
  proof (cases "utf8_encode s")
    case (Inl err)
    then show ?thesis using a by (simp add: PyStr update_str)
  next
    case (Inr bs)
    then have "update self d = update self (PyBytes bs)" by (simp add: PyStr update_str)
    then show ?thesis using a unfolding update_bytes by (simp add: process_blocks_returns)
  qed
qed

section \<open>Claims\<close>

text \<open>
  C7. Construction, \<^verbatim>\<open>reset\<close>, \<^verbatim>\<open>update\<close> and \<^verbatim>\<open>digest\<close> establish or preserve the engine
  invariant (exactly eight state words, each between 0 and \<open>0xFFFFFFFF\<close>, fewer than 64
  pending bytes), so it holds after every sequence of public calls; and whenever an
  \<^verbatim>\<open>update\<close> call returns, fewer than 64 bytes are pending.
\<close>

theorem engine_invariant_preserved:
  "engine_inv SimpleHash256 \<and>
   engine_inv (reset self) \<and>
   (engine_inv self \<longrightarrow> engine_inv (snd (update self d)) \<and> engine_inv (snd (digest self))) \<and>
   engine_inv (after_calls SimpleHash256 calls) \<and>
   (fst (update self d) = Inr () \<longrightarrow> length (buffer (snd (update self d))) < 64)"
  using SimpleHash256_inv reset_inv [of self] update_inv [of self d] digest_snd [of self]
    after_calls_inv [OF SimpleHash256_inv, of calls] update_returns [of self d "()"]
  by simp

theorem engine_invariant_preserved_witness:
  "engine_inv SimpleHash256 \<and>
   fst (update SimpleHash256 (PyBytes [1, 2, 3])) = Inr () \<and>
   engine_inv (snd (update SimpleHash256 (PyBytes [1, 2, 3]))) \<and>
   engine_inv (snd (digest SimpleHash256)) \<and>
   length (buffer (snd (update SimpleHash256 (PyBytes [1, 2, 3])))) < 64"
proof -
  have len: "length (state SimpleHash256) = 8"
    by (simp add: SimpleHash256_def reset_def INITIAL_HASH_def)
  have ok: "fst (update SimpleHash256 (PyBytes [1, 2, 3])) = Inr ()"
    using len by (rule update_bytes_ok(1))
  show ?thesis
    using engine_invariant_preserved [of SimpleHash256 "PyBytes [1, 2, 3]" "[]"] ok by blast
qed

lemma after_calls_bytes:
  "engine_inv self \<Longrightarrow>
     after_calls self (map (\<lambda>c. Update (PyBytes c)) chunks) =
       snd (update self (PyBytes (concat chunks)))"
proof (induction chunks arbitrary: self)
  case Nil
  then show ?case by (simp add: update_empty engine_inv_def)
next
  case (Cons c chunks)
  have len: "length (state self) = 8" using Cons.prems by (simp add: engine_inv_def)
  have inv1: "engine_inv (snd (update self (PyBytes c)))"
    using Cons.prems by (rule update_bytes_inv)
  have "after_calls self (map (\<lambda>c. Update (PyBytes c)) (c # chunks)) =
      snd (update (snd (update self (PyBytes c))) (PyBytes (concat chunks)))"
    using Cons.IH [OF inv1] by simp
  also have "\<dots> = snd (update self (PyBytes (c @ concat chunks)))"
    using len by (simp only: update_append)
  finally show ?case by simp
qed

text \<open>
  C1. However a byte sequence \<open>m\<close> is cut into chunks, updating a fresh engine with the
  chunks in order and then calling \<^verbatim>\<open>digest\<close> returns the same 32 bytes as one
  \<^verbatim>\<open>update(m)\<close> followed by \<^verbatim>\<open>digest\<close> on a fresh engine.
\<close>

theorem incremental_equals_one_shot:
  assumes "concat chunks = m"
  shows "\<exists>d. length d = 32 \<and>
           fst (digest (after_calls SimpleHash256 (map (\<lambda>c. Update (PyBytes c)) chunks))) = Inr d \<and>
           fst (digest (after_calls SimpleHash256 [Update (PyBytes m)])) = Inr d"
proof -
  let ?e = "snd (update SimpleHash256 (PyBytes m))"
  have a: "after_calls SimpleHash256 (map (\<lambda>c. Update (PyBytes c)) chunks) = ?e"
    using after_calls_bytes [OF SimpleHash256_inv, of chunks] assms by simp
  have b: "after_calls SimpleHash256 [Update (PyBytes m)] = ?e" by simp
  have "engine_inv ?e" using SimpleHash256_inv by (rule update_bytes_inv)
  then obtain d where "digest ?e = (Inr d, ?e)" "length d = 32"
    using digest_inv_eq by blast
  then show ?thesis unfolding a b by simp
qed

theorem incremental_equals_one_shot_witness:
  "\<exists>d. length d = 32 \<and>
     fst (digest (after_calls SimpleHash256
            [Update (PyBytes [1, 2]), Update (PyBytes []), Update (PyBytes [3])])) = Inr d \<and>
     fst (digest (after_calls SimpleHash256 [Update (PyBytes [1, 2, 3])])) = Inr d"
  using incremental_equals_one_shot [of "[[1, 2], [], [3]]" "[1, 2, 3]"] by simp

text \<open>
  C2. On a fresh engine, \<^verbatim>\<open>update(a); digest(); update(b); digest()\<close> returns from its
  second \<^verbatim>\<open>digest\<close> the same 32 bytes as \<^verbatim>\<open>update(a); update(b); digest()\<close>.
\<close>

theorem digest_then_update_continues:
  "\<exists>d. length d = 32 \<and>
     fst (digest (after_calls SimpleHash256 [Update (PyBytes a), Digest, Update (PyBytes b)])) = Inr d \<and>
     fst (digest (after_calls SimpleHash256 [Update (PyBytes a), Update (PyBytes b)])) = Inr d"
proof -
  let ?e1 = "snd (update SimpleHash256 (PyBytes a))"
  let ?e2 = "snd (update ?e1 (PyBytes b))"
  have inv1: "engine_inv ?e1" using SimpleHash256_inv by (rule update_bytes_inv)
  have inv2: "engine_inv ?e2" using inv1 by (rule update_bytes_inv)
  have d1: "snd (digest ?e1) = ?e1" using inv1 by (rule digest_snd)
  obtain d where d: "digest ?e2 = (Inr d, ?e2)" "length d = 32"
    using digest_inv_eq [OF inv2] by blast
  show ?thesis using d by (simp add: d1)
qed

text \<open>
  C3. After any sequence of public calls on a fresh engine (in particular any sequence of
  updates), \<^verbatim>\<open>digest\<close> returns 32 bytes and leaves the eight state words, the pending
  buffer and the counter as they were; so any number of further \<^verbatim>\<open>digest\<close> calls with
  no update in between return the same bytes.
\<close>

theorem digest_leaves_engine_unchanged:
  "\<exists>d. length d = 32 \<and>
     digest (after_calls SimpleHash256 calls) = (Inr d, after_calls SimpleHash256 calls) \<and>
     state (snd (digest (after_calls SimpleHash256 calls))) = state (after_calls SimpleHash256 calls) \<and>
     buffer (snd (digest (after_calls SimpleHash256 calls))) = buffer (after_calls SimpleHash256 calls) \<and>
     fst (digest (after_calls SimpleHash256 (calls @ replicate n Digest))) = Inr d"
proof -
  let ?e = "after_calls SimpleHash256 calls"
  have inv: "engine_inv ?e" using SimpleHash256_inv by (rule after_calls_inv)
  obtain d where d: "digest ?e = (Inr d, ?e)" "length d = 32"
    using digest_inv_eq [OF inv] by blast
  have rep: "after_calls e (replicate n Digest) = e" if "engine_inv e" for e
    using that by (induction n) (simp_all add: digest_snd)
  have app: "after_calls e (xs @ ys) = after_calls (after_calls e xs) ys" for e xs ys
    by (induction xs arbitrary: e) simp_all
  have "after_calls SimpleHash256 (calls @ replicate n Digest) = ?e"
    unfolding app using inv by (rule rep)
  then show ?thesis using d by simp
qed

lemma update_str_empty: "update self (PyStr []) = update self (PyBytes [])"
  by (simp add: update_str)

lemma after_call_empty_update:
  "engine_inv self \<Longrightarrow> is_empty_update c \<Longrightarrow> after_call self c = self"
  by (auto simp: is_empty_update_def update_str_empty update_empty engine_inv_def)

lemma digests_filter:
  "engine_inv self \<Longrightarrow>
     digests self (filter (\<lambda>c. \<not> is_empty_update c) calls) = digests self calls"
proof (induction calls arbitrary: self)
  case Nil
  then show ?case by simp
next
  case (Cons c calls)
  have inv1: "engine_inv (after_call self c)" using Cons.prems by (rule after_call_inv)
  show ?case
  proof (cases "is_empty_update c")
    case True
    then obtain d where c: "c = Update d" by (auto simp: is_empty_update_def)
    have "after_call self c = self" using Cons.prems True by (rule after_call_empty_update)
    then show ?thesis using True Cons.IH [OF Cons.prems] c by simp
  next
    case False
    then show ?thesis using Cons.IH [OF inv1] by (cases c) simp_all
  qed
qed

text \<open>
  C10. On an engine that satisfies the invariant, \<^verbatim>\<open>update(b'')\<close> and \<^verbatim>\<open>update('')\<close>
  return normally and leave the engine (state words, pending buffer, counter) as it was;
  hence a call sequence on a fresh engine returns the same digests with its empty updates
  removed, wherever they stand.
\<close>

theorem empty_update_is_identity:
  "(engine_inv self \<longrightarrow>
      update self (PyBytes []) = (Inr (), self) \<and> update self (PyStr []) = (Inr (), self)) \<and>
   digests SimpleHash256 (filter (\<lambda>c. \<not> is_empty_update c) calls) = digests SimpleHash256 calls"
  using digests_filter [OF SimpleHash256_inv, of calls]
  by (simp add: update_str_empty update_empty engine_inv_def)

theorem empty_update_is_identity_witness:
  "engine_inv SimpleHash256 \<and>
   update SimpleHash256 (PyBytes []) = (Inr (), SimpleHash256) \<and>
   update SimpleHash256 (PyStr []) = (Inr (), SimpleHash256) \<and>
   digests SimpleHash256 [Update (PyBytes [7]), Digest] =
     digests SimpleHash256
       [Update (PyStr []), Update (PyBytes [7]), Update (PyBytes []), Digest, Update (PyBytes [])]"
proof -
  have inv: "engine_inv SimpleHash256"
    by (simp add: engine_inv_def SimpleHash256_def reset_def INITIAL_HASH_def word32_def)
  have ne: "\<not> is_empty_update (Update (PyBytes [7]))" "\<not> is_empty_update Digest"
      "is_empty_update (Update (PyStr []))" "is_empty_update (Update (PyBytes []))"
    by (simp_all add: is_empty_update_def)
  show ?thesis
    using inv ne empty_update_is_identity [of SimpleHash256
        "[Update (PyStr []), Update (PyBytes [7]), Update (PyBytes []), Digest, Update (PyBytes [])]"]
    by (simp del: digests.simps after_call.simps)
qed

lemma big_endian_fold:
  "foldl (\<lambda>acc b. acc * 256 + uint b) acc
      (map (\<lambda>i. word_of_int (x div 256 ^ (n - 1 - i)) :: byte) [0..<n]) =
     acc * 256 ^ n + x mod 256 ^ n"
proof (induction n arbitrary: acc)
  case 0
  then show ?case by simp
next
  case (Suc n)
  have split: "[0..<Suc n] = 0 # map Suc [0..<n]"
    by (simp add: upt_conv_Cons map_Suc_upt del: upt_Suc)
  have tl: "map (\<lambda>i. word_of_int (x div 256 ^ (Suc n - 1 - i)) :: byte) (map Suc [0..<n]) =
      map (\<lambda>i. word_of_int (x div 256 ^ (n - 1 - i))) [0..<n]"
    by simp
  have hd: "uint (word_of_int (x div 256 ^ n) :: byte) = x div 256 ^ n mod 256"
    by (simp add: uint_word_of_int)
  have m: "x mod (256 ^ n * 256) = 256 ^ n * (x div 256 ^ n mod 256) + x mod 256 ^ n"
    by (rule zmod_zmult2_eq) simp
  have "foldl (\<lambda>acc b. acc * 256 + uint b) acc
      (map (\<lambda>i. word_of_int (x div 256 ^ (Suc n - 1 - i)) :: byte) [0..<Suc n]) =
    foldl (\<lambda>acc b. acc * 256 + uint b) (acc * 256 + x div 256 ^ n mod 256)
      (map (\<lambda>i. word_of_int (x div 256 ^ (n - 1 - i)) :: byte) [0..<n])"
    unfolding split list.map foldl_Cons tl by (simp only: hd diff_zero diff_Suc_1)
  also have "\<dots> = (acc * 256 + x div 256 ^ n mod 256) * 256 ^ n + x mod 256 ^ n"
    by (rule Suc.IH)
  also have "\<dots> = acc * 256 ^ Suc n + x mod 256 ^ Suc n"
    using m by (simp add: algebra_simps)
  finally show ?case .
qed

lemma from_to_bytes_big:
  assumes "to_bytes_big n x = Inr bs"
  shows "from_bytes_big bs = x"
proof -
  have range: "0 \<le> x" "x < 256 ^ n"
    using assms by (auto simp: to_bytes_big_def split: if_splits)
  have "bs = map (\<lambda>i. word_of_int (x div 256 ^ (n - 1 - i))) [0..<n]"
    using assms by (auto simp: to_bytes_big_def split: if_splits)
  then have "from_bytes_big bs = 0 * 256 ^ n + x mod 256 ^ n"
    unfolding from_bytes_big_def by (simp only: big_endian_fold)
  then show ?thesis using range by simp
qed

lemma pad_message_parts:
  assumes "length message < 2 ^ 61"
  shows "\<exists>len_bytes.
           pad_message message =
             Inr (message @ [0x80] @
                  replicate (nat ((56 - (int (length message) + 1) mod 64) mod 64)) 0 @ len_bytes) \<and>
           length len_bytes = 8 \<and> from_bytes_big len_bytes = 8 * int (length message)"
proof -
  let ?x = "int (length message) * 8"
  have "\<not> (?x < 0 \<or> 256 ^ 8 \<le> ?x)"
    using len_bits_fit [OF assms] by linarith
  then obtain lb where lb: "to_bytes_big 8 ?x = Inr lb"
    by (simp only: to_bytes_big_def if_False)
  have "pad_message message =
      Inr ((message @ [0x80]) @
           replicate (nat ((56 - (int (length message) + 1) mod 64) mod 64)) 0 @ lb)"
    by (simp only: pad_message_def Let_def lb sum.case append_assoc)
  moreover have "length lb = 8" using lb by (rule to_bytes_big_length)
  moreover have "from_bytes_big lb = 8 * int (length message)"
    using from_to_bytes_big [OF lb] by simp
  ultimately show ?thesis by auto
qed

lemma padding_len_least:
  fixes n :: nat
  defines "k \<equiv> nat ((56 - (int n + 1) mod 64) mod 64)"
  shows "(n + 1 + k) mod 64 = 56 \<and> (\<forall>j<k. (n + 1 + j) mod 64 \<noteq> 56)"
proof -
  define p where "p = (n + 1) mod 64"
  have p64: "p < 64" by (simp add: p_def)
  have k: "k = (if p \<le> 56 then 56 - p else 120 - p)"
    unfolding k_def p_def by (rule padding_len_nat)
  have shift: "(n + 1 + j) mod 64 = (p + j) mod 64" for j
    unfolding p_def by (simp only: mod_add_left_eq)
  show ?thesis
  proof (cases "p \<le> 56")
    case True
    then have kk: "k = 56 - p" using k by simp
    have "(p + k) mod 64 = 56" using True kk by simp
    moreover have "(p + j) mod 64 \<noteq> 56" if "j < k" for j
    proof -
      have "p + j < 56" using that kk by simp
      then show ?thesis by simp
    qed
    ultimately show ?thesis unfolding shift by blast
  next
    case False
    then have kk: "k = 120 - p" using k by simp
    have "p + k = 56 + 64" using False kk p64 by simp
    then have "(p + k) mod 64 = 56" by (simp only: mod_add_self2) simp
    moreover have "(p + j) mod 64 \<noteq> 56" if "j < k" for j
    proof (cases "p + j < 64")
      case True
      then show ?thesis using False by simp
    next
      case ge: False
      have lt: "p + j < 120" using that kk by simp
      have "(p + j) mod 64 = (p + j - 64) mod 64"
        using ge by (simp add: le_mod_geq)
      also have "\<dots> = p + j - 64" using lt by simp
      finally show ?thesis using lt by simp
    qed
    ultimately show ?thesis unfolding shift by blast
  qed
qed

text \<open>
  C5. For a message shorter than 64 bytes \<^verbatim>\<open>_pad_message\<close> returns the message, one byte
  \<open>0x80\<close>, the least number \<open>k\<close> of zero bytes that brings the length to 56 modulo 64, and
  eight bytes that are the big-endian encoding of eight times the message length; the
  result is non-empty and its length is a multiple of 64.
\<close>

theorem pad_message_layout:
  assumes "length message < 64"
  shows "\<exists>k len_bytes.
           pad_message message = Inr (message @ [0x80] @ replicate k 0 @ len_bytes) \<and>
           (length message + 1 + k) mod 64 = 56 \<and>
           (\<forall>j<k. (length message + 1 + j) mod 64 \<noteq> 56) \<and>
           length len_bytes = 8 \<and>
           from_bytes_big len_bytes = 8 * int (length message) \<and>
           0 < length (message @ [0x80] @ replicate k 0 @ len_bytes) \<and>
           length (message @ [0x80] @ replicate k 0 @ len_bytes) mod 64 = 0"
proof -
  let ?k = "nat ((56 - (int (length message) + 1) mod 64) mod 64)"
  have "length message < 2 ^ 61"
    using assms by (rule less_trans) simp
  then obtain lb where lb:
    "pad_message message = Inr (message @ [0x80] @ replicate ?k 0 @ lb)"
    "length lb = 8" "from_bytes_big lb = 8 * int (length message)"
    using pad_message_parts by blast
  have least: "(length message + 1 + ?k) mod 64 = 56"
      "\<forall>j<?k. (length message + 1 + j) mod 64 \<noteq> 56"
    using padding_len_least [of "length message"] by blast+
  have len: "length (message @ [0x80] @ replicate ?k 0 @ lb) mod 64 = 0"
    using pad_message_length [OF lb(1)] by blast
  show ?thesis
    using lb least len by (intro exI [of _ ?k] exI [of _ lb]) simp
qed

theorem pad_message_layout_witness:
  "\<exists>k len_bytes.
     pad_message [1, 2, 3] = Inr ([1, 2, 3] @ [0x80] @ replicate k 0 @ len_bytes) \<and>
     (length [1, 2, 3 :: byte] + 1 + k) mod 64 = 56 \<and>
     (\<forall>j<k. (length [1, 2, 3 :: byte] + 1 + j) mod 64 \<noteq> 56) \<and>
     length len_bytes = 8 \<and>
     from_bytes_big len_bytes = 8 * int (length [1, 2, 3 :: byte]) \<and>
     0 < length ([1, 2, 3] @ [0x80] @ replicate k 0 @ len_bytes) \<and>
     length ([1, 2, 3] @ [0x80] @ replicate k 0 @ len_bytes) mod 64 = 0"
proof -
  have "length [1, 2, 3 :: byte] < 64" by simp
  then show ?thesis by (rule pad_message_layout)
qed

lemma process_blocks_buffer:
  "length (state self) = 8 \<Longrightarrow>
     buffer (snd (process_blocks self)) =
       drop (length (buffer self) - length (buffer self) mod 64) (buffer self)"
proof (induction self rule: process_blocks.induct)
  case (1 self)
  show ?case
  proof (cases "64 \<le> length (buffer self)")
    case False
    then show ?thesis by (simp add: process_blocks_short)
  next
    case True
    let ?n = "length (buffer self)"
    let ?s1 = "self\<lparr>buffer := drop 64 (buffer self)\<rparr>"
    let ?b = "take 64 (buffer self)"
    let ?s2 = "snd (compress_block ?s1 ?b)"
    have len1: "length (state ?s1) = 8" using "1.prems" by simp
    have eq: "compress_block ?s1 ?b = (Inr (), ?s2)"
      using len1 by (rule compress_block_eq)
    have len2: "length (state ?s2) = 8"
      using len1 by (rule compress_block_state_len)
    have buf2: "buffer ?s2 = drop 64 (buffer self)" by simp
    have ih: "buffer (snd (process_blocks ?s2)) =
        drop (length (buffer ?s2) - length (buffer ?s2) mod 64) (buffer ?s2)"
      using "1.IH" [OF True refl refl eq [symmetric] refl len2] .
    have m: "(?n - 64) mod 64 = ?n mod 64"
      using True by (simp add: le_mod_geq)
    have lt: "?n mod 64 < 64" by simp
    have ge: "?n mod 64 \<le> ?n - 64"
      using m by (metis mod_less_eq_dividend)
    have idx: "(?n - 64 - ?n mod 64) + 64 = ?n - ?n mod 64"
      using True ge by simp
    have "buffer (snd (process_blocks ?s2)) =
        drop ((?n - 64 - ?n mod 64) + 64) (buffer self)"
      unfolding ih buf2 by (simp only: length_drop m drop_drop)
    then have "buffer (snd (process_blocks ?s2)) = drop (?n - ?n mod 64) (buffer self)"
      by (simp only: idx)
    moreover have "process_blocks self = process_blocks ?s2"
      using True "1.prems" by (rule process_blocks_long)
    ultimately show ?thesis by simp
  qed
qed

lemma fresh_update_buffer:
  "buffer (snd (update SimpleHash256 (PyBytes m))) = drop (length m - length m mod 64) m"
proof -
  let ?e = "SimpleHash256\<lparr>buffer := buffer SimpleHash256 @ m,
      counter := counter SimpleHash256 + int (length m)\<rparr>"
  have b: "buffer ?e = m" by (simp add: SimpleHash256_def reset_def)
  have "length (state ?e) = 8" by (simp add: SimpleHash256_def reset_def INITIAL_HASH_def)
  then have "buffer (snd (process_blocks ?e)) =
      drop (length (buffer ?e) - length (buffer ?e) mod 64) (buffer ?e)"
    by (rule process_blocks_buffer)
  then show ?thesis unfolding b by (simp only: update_bytes)
qed

lemma fresh_update_counter:
  "counter (snd (update SimpleHash256 (PyBytes m))) = int (length m)"
proof -
  have "length (state SimpleHash256) = 8"
    by (simp add: SimpleHash256_def reset_def INITIAL_HASH_def)
  then have "counter (snd (update SimpleHash256 (PyBytes m))) =
      counter SimpleHash256 + int (length m)"
    by (rule update_bytes_ok(4))
  then show ?thesis by (simp add: SimpleHash256_def reset_def)
qed

lemma digest_fst_cong:
  assumes st: "state self = state self'" and buf: "buffer self = buffer self'"
  shows "fst (digest self) = fst (digest self')"
proof (cases "pad_message (buffer self)")
  case (Inl err)
  then show ?thesis using buf by (simp add: digest_def)
next
  case (Inr padded)
  let ?offs = "map (\<lambda>k. 64 * k) [0..<(length padded + 63) div 64]"
  obtain r s1 where r: "digest_loop padded ?offs self = (r, s1)"
    by (cases "digest_loop padded ?offs self")
  obtain r' s1' where r': "digest_loop padded ?offs self' = (r', s1')"
    by (cases "digest_loop padded ?offs self'")
  have "r = r' \<and> state s1 = state s1'"
    using digest_loop_state_cong [OF st, of padded ?offs] r r' by simp
  then have rr: "r' = r" and ss: "state s1' = state s1" by simp_all
  have p': "pad_message (buffer self') = Inr padded" using Inr buf by simp
  have a: "fst (digest self) =
      (case r of Inl err \<Rightarrow> Inl err | Inr u \<Rightarrow>
         (case words_to_bytes (state s1) of Inl err \<Rightarrow> Inl err | Inr res \<Rightarrow> Inr res))"
    unfolding digest_def Let_def Inr sum.case r prod.case
    by (simp split: sum.split)
  have b: "fst (digest self') =
      (case r of Inl err \<Rightarrow> Inl err | Inr u \<Rightarrow>
         (case words_to_bytes (state s1) of Inl err \<Rightarrow> Inl err | Inr res \<Rightarrow> Inr res))"
    unfolding digest_def Let_def p' sum.case r' prod.case rr ss
    by (simp split: sum.split)
  show ?thesis unfolding a b ..
qed

lemma drop_last_eight: "length lb = 8 \<Longrightarrow> drop (length (xs @ lb) - 8) (xs @ lb) = lb"
  by simp

text \<open>
  C6. After any chunked input to a fresh engine the pending buffer holds the last
  \<open>total mod 64\<close> bytes while the counter holds \<open>total\<close>. The last eight bytes of the
  padded buffer encode \<open>8 * (total mod 64)\<close>, which differs from \<open>8 * total\<close> as soon as 64
  bytes have been fed. The digest does not depend on the counter, and two messages whose
  lengths agree modulo 64 and whose last \<open>length mod 64\<close> bytes agree are padded to the
  same final blocks.
\<close>

theorem length_field_is_buffer_length:
  "(tot = length (concat chunks) \<and>
    self = after_calls SimpleHash256 (map (\<lambda>c. Update (PyBytes c)) chunks) \<longrightarrow>
      length (buffer self) = tot mod 64 \<and>
      counter self = int tot \<and>
      (\<exists>padded. pad_message (buffer self) = Inr padded \<and>
         from_bytes_big (drop (length padded - 8) padded) = 8 * int (tot mod 64) \<and>
         (64 \<le> tot \<longrightarrow> from_bytes_big (drop (length padded - 8) padded) \<noteq> 8 * int tot))) \<and>
   fst (digest (e\<lparr>counter := c\<rparr>)) = fst (digest e) \<and>
   (length m1 mod 64 = length m2 mod 64 \<and>
    drop (length m1 - length m1 mod 64) m1 = drop (length m2 - length m2 mod 64) m2 \<longrightarrow>
      pad_message (buffer (after_calls SimpleHash256 [Update (PyBytes m1)])) =
      pad_message (buffer (after_calls SimpleHash256 [Update (PyBytes m2)])))"
proof -
  have part1: "length (buffer self) = tot mod 64 \<and>
      counter self = int tot \<and>
      (\<exists>padded. pad_message (buffer self) = Inr padded \<and>
         from_bytes_big (drop (length padded - 8) padded) = 8 * int (tot mod 64) \<and>
         (64 \<le> tot \<longrightarrow> from_bytes_big (drop (length padded - 8) padded) \<noteq> 8 * int tot))"
    if t: "tot = length (concat chunks)"
      and s: "self = after_calls SimpleHash256 (map (\<lambda>c. Update (PyBytes c)) chunks)"
  proof -
    let ?m = "concat chunks"
    have self: "self = snd (update SimpleHash256 (PyBytes ?m))"
      unfolding s using SimpleHash256_inv by (rule after_calls_bytes)
    have buf: "buffer self = drop (tot - tot mod 64) ?m"
      unfolding self t by (rule fresh_update_buffer)
    have le: "tot mod 64 \<le> tot" by simp
    have blen: "length (buffer self) = tot mod 64"
      unfolding buf using t le by simp
    have cnt: "counter self = int tot"
      unfolding self t by (rule fresh_update_counter)
    have "length (buffer self) < 2 ^ 61"
      unfolding blen by (rule less_trans [of _ 64]) simp_all
    then obtain lb where lb:
      "pad_message (buffer self) =
         Inr (buffer self @ [0x80] @
              replicate (nat ((56 - (int (length (buffer self)) + 1) mod 64) mod 64)) 0 @ lb)"
      "length lb = 8" "from_bytes_big lb = 8 * int (length (buffer self))"
      using pad_message_parts by blast
    let ?pre = "buffer self @ [0x80] @
        replicate (nat ((56 - (int (length (buffer self)) + 1) mod 64) mod 64)) 0"
    have p: "pad_message (buffer self) = Inr (?pre @ lb)" using lb(1) by simp
    have last8: "drop (length (?pre @ lb) - 8) (?pre @ lb) = lb"
      using lb(2) by (rule drop_last_eight)
    have "from_bytes_big (drop (length (?pre @ lb) - 8) (?pre @ lb)) = from_bytes_big lb"
      by (simp only: last8)
    also have "\<dots> = 8 * int (length (buffer self))" by (rule lb(3))
    also have "\<dots> = 8 * int (tot mod 64)" by (simp only: blen)
    finally have field:
      "from_bytes_big (drop (length (?pre @ lb) - 8) (?pre @ lb)) = 8 * int (tot mod 64)" .
    have "tot mod 64 \<noteq> tot" if "64 \<le> tot"
      using that by (metis mod_less_divisor not_le zero_less_numeral)
    then have neq: "64 \<le> tot \<longrightarrow>
        from_bytes_big (drop (length (?pre @ lb) - 8) (?pre @ lb)) \<noteq> 8 * int tot"
      unfolding field by simp
    show ?thesis using blen cnt p field neq by blast
  qed
  have part2: "fst (digest (e\<lparr>counter := c\<rparr>)) = fst (digest e)"
    by (rule digest_fst_cong) simp_all
  have part3: "pad_message (buffer (after_calls SimpleHash256 [Update (PyBytes m1)])) =
      pad_message (buffer (after_calls SimpleHash256 [Update (PyBytes m2)]))"
    if "drop (length m1 - length m1 mod 64) m1 = drop (length m2 - length m2 mod 64) m2"
    using that by (simp add: fresh_update_buffer)
  show ?thesis using part1 part2 part3 by blast
qed

theorem length_field_is_buffer_length_witness:
  "length (buffer (after_calls SimpleHash256
      (map (\<lambda>c. Update (PyBytes c)) [replicate 64 0, [9]]))) = 1 \<and>
   counter (after_calls SimpleHash256
      (map (\<lambda>c. Update (PyBytes c)) [replicate 64 0, [9]])) = 65 \<and>
   (\<exists>padded. pad_message (buffer (after_calls SimpleHash256
          (map (\<lambda>c. Update (PyBytes c)) [replicate 64 0, [9]]))) = Inr padded \<and>
      from_bytes_big (drop (length padded - 8) padded) = 8 \<and>
      from_bytes_big (drop (length padded - 8) padded) \<noteq> 520) \<and>
   fst (digest (SimpleHash256\<lparr>counter := 5\<rparr>)) = fst (digest SimpleHash256) \<and>
   pad_message (buffer (after_calls SimpleHash256 [Update (PyBytes [9])])) =
     pad_message (buffer (after_calls SimpleHash256 [Update (PyBytes (replicate 64 0 @ [9]))]))"
proof -
  let ?chunks = "[replicate 64 0, [9]] :: byte list list"
  let ?self = "after_calls SimpleHash256 (map (\<lambda>c. Update (PyBytes c)) ?chunks)"
  let ?m1 = "[9] :: byte list"
  let ?m2 = "replicate 64 0 @ [9] :: byte list"
  note inst = length_field_is_buffer_length
      [where tot = 65 and chunks = ?chunks and self = ?self and e = SimpleHash256 and c = 5
         and ?m1.0 = ?m1 and ?m2.0 = ?m2]
  have h1: "(65::nat) = length (concat ?chunks) \<and> ?self = ?self" by simp
  have h2: "length ?m1 mod 64 = length ?m2 mod 64 \<and>
      drop (length ?m1 - length ?m1 mod 64) ?m1 = drop (length ?m2 - length ?m2 mod 64) ?m2"
    by simp
  have h3: "(64::nat) \<le> 65" by simp
  have c1: "length (buffer ?self) = 65 mod 64 \<and> counter ?self = int 65 \<and>
      (\<exists>padded. pad_message (buffer ?self) = Inr padded \<and>
         from_bytes_big (drop (length padded - 8) padded) = 8 * int (65 mod 64) \<and>
         ((64::nat) \<le> 65 \<longrightarrow> from_bytes_big (drop (length padded - 8) padded) \<noteq> 8 * int 65))"
    by (rule inst [THEN conjunct1, THEN mp, OF h1])
  have c2: "fst (digest (SimpleHash256\<lparr>counter := 5\<rparr>)) = fst (digest SimpleHash256)"
    by (rule inst [THEN conjunct2, THEN conjunct1])
  have c3: "pad_message (buffer (after_calls SimpleHash256 [Update (PyBytes ?m1)])) =
      pad_message (buffer (after_calls SimpleHash256 [Update (PyBytes ?m2)]))"
    by (rule inst [THEN conjunct2, THEN conjunct2, THEN mp, OF h2])
  obtain padded where p: "pad_message (buffer ?self) = Inr padded"
      and q: "from_bytes_big (drop (length padded - 8) padded) = 8 * int (65 mod 64)"
      and r: "(64::nat) \<le> 65 \<longrightarrow>
                from_bytes_big (drop (length padded - 8) padded) \<noteq> 8 * int 65"
    using c1 [THEN conjunct2, THEN conjunct2] by (elim exE conjE)
  have q': "from_bytes_big (drop (length padded - 8) padded) = 8"
    using q by simp
  have r': "from_bytes_big (drop (length padded - 8) padded) \<noteq> 520"
    using r [THEN mp, OF h3] by simp
  have e: "\<exists>padded. pad_message (buffer ?self) = Inr padded \<and>
      from_bytes_big (drop (length padded - 8) padded) = 8 \<and>
      from_bytes_big (drop (length padded - 8) padded) \<noteq> 520"
    using p q' r' by (intro exI [of _ padded] conjI)
  have l1: "length (buffer ?self) = 1"
    using c1 [THEN conjunct1] by simp
  have l2: "counter ?self = 65"
    using c1 [THEN conjunct2, THEN conjunct1] by simp
  show ?thesis
    using l1 l2 e c2 c3 by (intro conjI)
qed

lemma utf8_encode_error: "utf8_encode s = Inl err \<Longrightarrow> err = UnicodeEncodeError"
proof (induction s)
  case Nil
  then show ?case by simp
next
  case (Cons c s)
  show ?case
  proof (cases "utf8_char c")
    case (Inl e)
    then have "e = UnicodeEncodeError"
      by (auto simp: utf8_char_def split: if_splits)
    then show ?thesis using Cons.prems Inl by simp
  next
    case (Inr bs)
    then show ?thesis using Cons by (auto split: sum.splits)
  qed
qed

lemma utf8_char_fails_iff:
  "c < 0x110000 \<Longrightarrow> (\<exists>err. utf8_char c = Inl err) \<longleftrightarrow> 0xD800 \<le> c \<and> c \<le> 0xDFFF"
  by (auto simp: utf8_char_def)

lemma utf8_encode_fails_iff:
  "list_all (\<lambda>c. c < 0x110000) s \<Longrightarrow>
     (\<exists>err. utf8_encode s = Inl err) \<longleftrightarrow> list_ex (\<lambda>c. 0xD800 \<le> c \<and> c \<le> 0xDFFF) s"
proof (induction s)
  case Nil
  then show ?case by simp
next
  case (Cons c s)
  have c: "(\<exists>err. utf8_char c = Inl err) \<longleftrightarrow> 0xD800 \<le> c \<and> c \<le> 0xDFFF"
    using Cons.prems by (intro utf8_char_fails_iff) simp
  have ih: "(\<exists>err. utf8_encode s = Inl err) \<longleftrightarrow> list_ex (\<lambda>c. 0xD800 \<le> c \<and> c \<le> 0xDFFF) s"
    using Cons by simp
  show ?case
  proof (cases "utf8_char c")
    case (Inl e)
    then show ?thesis using c by auto
  next
    case (Inr bs)
    then have "\<not> (0xD800 \<le> c \<and> c \<le> 0xDFFF)" using c by auto
    then show ?thesis using Inr ih by (cases "utf8_encode s") auto
  qed
qed

text \<open>
  C8. On an engine that satisfies the invariant, \<^verbatim>\<open>update\<close> returns \<^verbatim>\<open>None\<close> for every
  byte sequence and for every string that UTF-8 can encode (where it behaves as on the
  encoded bytes). A string that cannot be encoded, which for code points up to
  \<open>0x10FFFF\<close> means one holding a surrogate, makes the call raise
  \<^verbatim>\<open>UnicodeEncodeError\<close>, the encoding error of the specification, and leaves the engine
  exactly as it was.
\<close>

theorem update_only_fails_on_encoding:
  "(engine_inv self \<longrightarrow> fst (update self (PyBytes bs)) = Inr ()) \<and>
   (engine_inv self \<and> utf8_encode s = Inr bs \<longrightarrow>
      update self (PyStr s) = update self (PyBytes bs) \<and> fst (update self (PyStr s)) = Inr ()) \<and>
   (utf8_encode s = Inl err \<longrightarrow> update self (PyStr s) = (Inl UnicodeEncodeError, self)) \<and>
   (list_all (\<lambda>c. c < 0x110000) s \<longrightarrow>
      (\<exists>err. utf8_encode s = Inl err) = list_ex (\<lambda>c. 0xD800 \<le> c \<and> c \<le> 0xDFFF) s)"
proof -
  have a: "fst (update self (PyBytes bs)) = Inr ()" if "engine_inv self"
    using that by (intro update_bytes_ok(1)) (simp add: engine_inv_def)
  have b: "update self (PyStr s) = update self (PyBytes bs)" if "utf8_encode s = Inr bs"
    using that by (simp add: update_str)
  have c: "update self (PyStr s) = (Inl UnicodeEncodeError, self)" if "utf8_encode s = Inl err"
    using that utf8_encode_error [OF that] by (simp add: update_str)
  show ?thesis
    using a b c utf8_encode_fails_iff [of s] by simp
qed

theorem update_only_fails_on_encoding_witness:
  "engine_inv SimpleHash256 \<and>
   fst (update SimpleHash256 (PyBytes [0x41])) = Inr () \<and>
   utf8_encode [0x41] = Inr [0x41] \<and>
   fst (update SimpleHash256 (PyStr [0x41])) = Inr () \<and>
   utf8_encode [0x41, 0xD800] = Inl UnicodeEncodeError \<and>
   update SimpleHash256 (PyStr [0x41, 0xD800]) = (Inl UnicodeEncodeError, SimpleHash256) \<and>
   list_all (\<lambda>c. c < 0x110000) [0x41, 0xD800 :: nat] \<and>
   list_ex (\<lambda>c. 0xD800 \<le> c \<and> c \<le> 0xDFFF) [0x41, 0xD800 :: nat]"
proof -
  have inv: "engine_inv SimpleHash256"
    by (simp add: engine_inv_def SimpleHash256_def reset_def INITIAL_HASH_def word32_def)
  have good: "utf8_encode [0x41] = Inr [0x41]"
    by (simp add: utf8_char_def)
  have bad: "utf8_encode [0x41, 0xD800] = Inl UnicodeEncodeError"
    by (simp add: utf8_char_def)
  have pts: "list_all (\<lambda>c. c < 0x110000) [0x41, 0xD800 :: nat]" by simp
  note ok = update_only_fails_on_encoding
      [where self = SimpleHash256 and bs = "[0x41]" and s = "[0x41]" and err = UnicodeEncodeError]
  note ko = update_only_fails_on_encoding
      [where self = SimpleHash256 and bs = "[]" and s = "[0x41, 0xD800]"
         and err = UnicodeEncodeError]
  have a: "fst (update SimpleHash256 (PyBytes [0x41])) = Inr ()"
    using ok inv by blast
  have b: "fst (update SimpleHash256 (PyStr [0x41])) = Inr ()"
    using ok inv good by blast
  have c: "update SimpleHash256 (PyStr [0x41, 0xD800]) = (Inl UnicodeEncodeError, SimpleHash256)"
    using ko bad by blast
  have d: "list_ex (\<lambda>c. 0xD800 \<le> c \<and> c \<le> 0xDFFF) [0x41, 0xD800 :: nat]"
    using ko pts bad by blast
  show ?thesis
    using inv a good b bad c pts d by (intro conjI)
qed

section \<open>The compression step against the specification\<close>

lemma mask32: "(0xFFFFFFFF :: int) = mask 32"
  by (simp add: mask_eq_exp_minus_1)

lemma and_mask32: "(x :: int) AND 0xFFFFFFFF = uint (word_of_int x :: 32 word)"
  unfolding mask32 by (simp add: unsigned_of_int take_bit_eq_mask)

lemma uint_and_mask32: "uint (w :: 32 word) AND 0xFFFFFFFF = uint w"
  unfolding and_mask32 by simp

lemma rotate_right_uint:
  "rotate_right (uint (w :: 32 word)) r = uint (spec_rotr r w)"
proof -
  have "(drop_bit r (uint w) OR push_bit (32 - r) (uint w)) AND mask 32 =
      uint (drop_bit r w OR push_bit (32 - r) w)"
    by (rule bit_eqI) (auto simp: bit_simps dest: bit_imp_le_length)
  then show ?thesis
    unfolding rotate_right_def Let_def uint_and_mask32 spec_rotr_def
    by (simp only: mask32)
qed

lemma drop_bit_uint: "drop_bit n (uint (w :: 32 word)) = uint (drop_bit n w)"
  by (rule bit_eqI) (auto simp: bit_simps dest: bit_imp_le_length)

lemma xor_uint: "uint (a :: 32 word) XOR uint b = uint (a XOR b)"
  by (simp add: uint_xor)

lemma and_uint: "uint (a :: 32 word) AND uint b = uint (a AND b)"
  by (simp add: uint_and)

lemma not_and_uint: "NOT (uint (a :: 32 word)) AND uint b = uint (NOT a AND b)"
  by (rule bit_eqI) (auto simp: bit_simps dest: bit_imp_le_length)

lemma add_mask_uint2:
  "(uint (a :: 32 word) + uint b) AND 0xFFFFFFFF = uint (a + b)"
  unfolding and_mask32 by simp

lemma add_mask_uint4:
  "(uint (a :: 32 word) + uint b + uint c + uint d) AND 0xFFFFFFFF = uint (a + b + c + d)"
  unfolding and_mask32 by simp

lemma add_mask_uint5:
  "(uint (a :: 32 word) + uint b + uint c + uint d + uint e) AND 0xFFFFFFFF =
     uint (a + b + c + d + e)"
  unfolding and_mask32 by simp

lemma take4_drop:
  assumes "n + 4 \<le> length xs"
  shows "take 4 (drop n xs) = [xs ! n, xs ! (n + 1), xs ! (n + 2), xs ! (n + 3)]"
proof -
  have "take 4 (drop n xs) = map (\<lambda>i. xs ! (n + i)) [0..<4]"
    using assms by (intro nth_equalityI) simp_all
  also have "[0..<4] = [0, 1, 2, 3::nat]"
    by (simp add: upt_rec)
  finally show ?thesis by simp
qed

lemma from_bytes_big4:
  "from_bytes_big [a, b, c, d] = ((uint a * 256 + uint b) * 256 + uint c) * 256 + uint d"
  by (simp add: from_bytes_big_def)

lemma uint_byte_bound: "uint (b :: byte) \<le> 255"
proof -
  have "uint b < 2 ^ LENGTH(8)" by (rule uint_lt2p)
  then show ?thesis by simp
qed

lemma spec_be32_uint:
  "uint (spec_be32 block i) =
     ((uint (block ! (4 * i)) * 256 + uint (block ! (4 * i + 1))) * 256 +
        uint (block ! (4 * i + 2))) * 256 + uint (block ! (4 * i + 3))"
proof -
  let ?a = "block ! (4 * i)" and ?b = "block ! (4 * i + 1)"
  let ?c = "block ! (4 * i + 2)" and ?d = "block ! (4 * i + 3)"
  let ?X = "((uint ?a * 256 + uint ?b) * 256 + uint ?c) * 256 + uint ?d"
  have w: "spec_be32 block i = (word_of_int ?X :: 32 word)"
    unfolding spec_be32_def by (simp add: algebra_simps)
  have lo: "0 \<le> ?X" by simp
  have hi: "?X < 2 ^ 32"
    using uint_byte_bound [of ?a] uint_byte_bound [of ?b]
      uint_byte_bound [of ?c] uint_byte_bound [of ?d]
    by simp
  have len: "(2::int) ^ LENGTH(32) = 2 ^ 32" by simp
  have "uint (word_of_int ?X :: 32 word) = ?X mod 2 ^ LENGTH(32)"
    by (rule uint_word_of_int)
  also have "\<dots> = ?X" unfolding len using lo hi by (rule mod_pos_pos_trivial)
  finally show ?thesis unfolding w .
qed

lemma block_words_nth:
  assumes "length block = 64" and "j < 16"
  shows "block_words block ! j = uint (spec_w block j)"
proof -
  have "4 * j + 4 \<le> length block" using assms by simp
  then have t: "take 4 (drop (4 * j) block) =
      [block ! (4 * j), block ! (4 * j + 1), block ! (4 * j + 2), block ! (4 * j + 3)]"
    by (rule take4_drop)
  have "block_words block ! j = from_bytes_big (take 4 (drop (4 * j) block))"
    using assms(2) by (simp add: block_words_def del: upt_Suc)
  also have "\<dots> = uint (spec_be32 block j)"
    unfolding t from_bytes_big4 spec_be32_uint ..
  also have "spec_be32 block j = spec_w block j"
    using assms(2) by (simp add: spec_w.simps)
  finally show ?thesis .
qed

lemma block_words_length: "length (block_words block) = 16"
  by (simp add: block_words_def del: upt_Suc)

lemma block_words_spec:
  assumes "length block = 64"
  shows "block_words block = map (\<lambda>j. uint (spec_w block j)) [0..<16]"
  using assms by (intro nth_equalityI) (simp_all add: block_words_length block_words_nth del: upt_Suc)

lemma extend_step_spec:
  assumes "16 \<le> i"
  shows "extend_step i (map (\<lambda>j. uint (spec_w block j)) [0..<i]) =
           map (\<lambda>j. uint (spec_w block j)) [0..<Suc i]"
proof -
  let ?ws = "map (\<lambda>j. uint (spec_w block j)) [0..<i]"
  have n: "?ws ! (i - 15) = uint (spec_w block (i - 15))"
      "?ws ! (i - 2) = uint (spec_w block (i - 2))"
      "?ws ! (i - 16) = uint (spec_w block (i - 16))"
      "?ws ! (i - 7) = uint (spec_w block (i - 7))"
    using assms by simp_all
  have s0: "rotate_right (uint (spec_w block (i - 15))) 7 XOR
      rotate_right (uint (spec_w block (i - 15))) 18 XOR
      drop_bit 3 (uint (spec_w block (i - 15))) = uint (spec_sigma0 (spec_w block (i - 15)))"
    by (simp only: rotate_right_uint drop_bit_uint xor_uint spec_sigma0_def)
  have s1: "rotate_right (uint (spec_w block (i - 2))) 17 XOR
      rotate_right (uint (spec_w block (i - 2))) 19 XOR
      drop_bit 10 (uint (spec_w block (i - 2))) = uint (spec_sigma1 (spec_w block (i - 2)))"
    by (simp only: rotate_right_uint drop_bit_uint xor_uint spec_sigma1_def)
  have rec: "spec_w block i =
      spec_w block (i - 16) + spec_sigma0 (spec_w block (i - 15)) +
      spec_w block (i - 7) + spec_sigma1 (spec_w block (i - 2))"
    using assms by (subst spec_w.simps) simp
  have "extend_step i ?ws = ?ws @ [uint (spec_w block i)]"
    unfolding extend_step_def Let_def n s0 s1 add_mask_uint4 rec ..
  then show ?thesis by simp
qed

lemma schedule_prefix:
  assumes "length block = 64"
  shows "fold extend_step [16..<16 + n] (block_words block) =
           map (\<lambda>j. uint (spec_w block j)) [0..<16 + n]"
proof (induction n)
  case 0
  then show ?case using assms by (simp add: block_words_spec del: upt_Suc)
next
  case (Suc n)
  have "[16..<16 + Suc n] = [16..<16 + n] @ [16 + n]"
    by (simp only: add_Suc_right upt_Suc_append le_add1)
  then have "fold extend_step [16..<16 + Suc n] (block_words block) =
      extend_step (16 + n) (fold extend_step [16..<16 + n] (block_words block))"
    by (simp only: fold_append fold_simps comp_apply)
  also have "\<dots> = map (\<lambda>j. uint (spec_w block j)) [0..<Suc (16 + n)]"
    unfolding Suc.IH by (rule extend_step_spec) simp
  finally show ?case by simp
qed

lemma message_schedule_spec:
  assumes "length block = 64"
  shows "message_schedule block = map (\<lambda>j. uint (spec_w block j)) [0..<64]"
  using schedule_prefix [OF assms, of 48] by (simp add: message_schedule_def)

lemma regs_cases:
  fixes r :: "'a \<times> 'b \<times> 'c \<times> 'd \<times> 'e \<times> 'f \<times> 'g \<times> 'h"
  obtains a b c d e f g h where "r = (a, b, c, d, e, f, g, h)"
proof (cases r)
  case (fields a b c d e f gh)
  obtain g h where "gh = (g, h)" by (cases gh)
  then show ?thesis using fields that by simp
qed

lemma uint_word_of_int_word32:
  assumes "word32 x"
  shows "uint (word_of_int x :: 32 word) = x"
proof -
  have len: "(2::int) ^ LENGTH(32) = 2 ^ 32" by simp
  have "uint (word_of_int x :: 32 word) = x mod 2 ^ LENGTH(32)"
    by (rule uint_word_of_int)
  also have "\<dots> = x"
    unfolding len using assms by (intro mod_pos_pos_trivial) (simp_all add: word32_def)
  finally show ?thesis .
qed

lemma K_word32: "list_all word32 K"
  by (simp add: K_def word32_def)

lemma K_length: "length K = 16"
  by (simp add: K_def)

lemma K_spec: "K ! (i mod 16) = uint (spec_K ! (i mod 16))"
proof -
  have lt: "i mod 16 < length K" by (simp add: K_length)
  then have "word32 (K ! (i mod 16))"
    using K_word32 by (simp add: list_all_length)
  then have "uint (word_of_int (K ! (i mod 16)) :: 32 word) = K ! (i mod 16)"
    by (rule uint_word_of_int_word32)
  then show ?thesis using lt by (simp add: spec_K_def)
qed

lemma round_step_spec:
  assumes "i < 64"
  shows "round_step (map (\<lambda>j. uint (spec_w block j)) [0..<64]) i (regs_uint r) =
           regs_uint (spec_round (spec_K ! (i mod 16)) (spec_w block i) r)"
proof -
  obtain a b c d e f g h where r: "r = (a, b, c, d, e, f, g, h)"
    by (rule regs_cases)
  have w: "map (\<lambda>j. uint (spec_w block j)) [0..<64] ! i = uint (spec_w block i)"
    using assms by (simp del: upt_Suc)
  show ?thesis
    unfolding r regs_uint.simps round_step.simps spec_round.simps Let_def w K_spec
      rotate_right_uint xor_uint and_uint not_and_uint add_mask_uint5 add_mask_uint2
    ..
qed

lemma rounds_spec:
  "n \<le> 64 \<Longrightarrow>
     fold (round_step (map (\<lambda>j. uint (spec_w block j)) [0..<64])) [0..<n] (regs_uint r) =
       regs_uint (fold (\<lambda>i. spec_round (spec_K ! (i mod 16)) (spec_w block i)) [0..<n] r)"
proof (induction n)
  case 0
  then show ?case by simp
next
  case (Suc n)
  then have n: "n < 64" and ih:
    "fold (round_step (map (\<lambda>j. uint (spec_w block j)) [0..<64])) [0..<n] (regs_uint r) =
       regs_uint (fold (\<lambda>i. spec_round (spec_K ! (i mod 16)) (spec_w block i)) [0..<n] r)"
    by simp_all
  have split: "[0..<Suc n] = [0..<n] @ [n]" by simp
  show ?case
    unfolding split fold_append comp_apply fold_simps ih
    using n by (rule round_step_spec)
qed

lemma compress_state_spec:
  assumes len: "length st = 8" and blk: "length block = 64"
  shows "compress_state (map uint st) block = map uint (spec_compress st block)"
proof -
  let ?r0 = "(st ! 0, st ! 1, st ! 2, st ! 3, st ! 4, st ! 5, st ! 6, st ! 7)"
  obtain a b c d e f g h where
    fin: "fold (\<lambda>i. spec_round (spec_K ! (i mod 16)) (spec_w block i)) [0..<64] ?r0 =
      (a, b, c, d, e, f, g, h)"
    by (rule regs_cases)
  have nth: "map uint st ! 0 = uint (st ! 0)" "map uint st ! 1 = uint (st ! 1)"
      "map uint st ! 2 = uint (st ! 2)" "map uint st ! 3 = uint (st ! 3)"
      "map uint st ! 4 = uint (st ! 4)" "map uint st ! 5 = uint (st ! 5)"
      "map uint st ! 6 = uint (st ! 6)" "map uint st ! 7 = uint (st ! 7)"
    using len by simp_all
  have start: "(uint (st ! 0), uint (st ! 1), uint (st ! 2), uint (st ! 3),
      uint (st ! 4), uint (st ! 5), uint (st ! 6), uint (st ! 7)) = regs_uint ?r0"
    by simp
  have "fold (round_step (message_schedule block)) [0..<64]
      (uint (st ! 0), uint (st ! 1), uint (st ! 2), uint (st ! 3),
       uint (st ! 4), uint (st ! 5), uint (st ! 6), uint (st ! 7)) =
      regs_uint (a, b, c, d, e, f, g, h)"
    unfolding message_schedule_spec [OF blk] start
    by (simp only: rounds_spec [OF order_refl] fin)
  then have run: "fold (round_step (message_schedule block)) [0..<64]
      (uint (st ! 0), uint (st ! 1), uint (st ! 2), uint (st ! 3),
       uint (st ! 4), uint (st ! 5), uint (st ! 6), uint (st ! 7)) =
      (uint a, uint b, uint c, uint d, uint e, uint f, uint g, uint h)"
    by simp
  have lhs: "compress_state (map uint st) block =
      [uint (st ! 0 + a), uint (st ! 1 + b), uint (st ! 2 + c), uint (st ! 3 + d),
       uint (st ! 4 + e), uint (st ! 5 + f), uint (st ! 6 + g), uint (st ! 7 + h)]"
    unfolding compress_state_def compress_block_def Let_def
    by (simp only: engine.simps length_map len nth run prod.case add_mask_uint2
          simp_thms if_False snd_conv)
  have rhs: "spec_compress st block =
      [st ! 0 + a, st ! 1 + b, st ! 2 + c, st ! 3 + d,
       st ! 4 + e, st ! 5 + f, st ! 6 + g, st ! 7 + h]"
    unfolding spec_compress_def fin by simp
  show ?thesis unfolding lhs rhs by simp
qed

lemma map_uint_word_of_int:
  "list_all word32 st \<Longrightarrow> map uint (map word_of_int st :: 32 word list) = st"
  by (induction st) (simp_all add: uint_word_of_int_word32)

text \<open>
  C4. \<^verbatim>\<open>_compress_block\<close> leaves the pending buffer (and the counter) alone and its
  result does not depend on the buffer. On eight state words below \<open>2^32\<close> and a block of
  64 bytes it never raises, and the state it writes is the one computed by the algorithm
  of the specification over 32-bit words: big-endian block words, the schedule recurrence
  with rotations 7/18 and 17/19 and shifts 3 and 10, 64 rounds with constant
  \<open>K[i mod 16]\<close>, and the elementwise addition onto the input state.
\<close>

theorem compress_block_refines_spec:
  "buffer (snd (compress_block self block)) = buffer self \<and>
   counter (snd (compress_block self block)) = counter self \<and>
   compress_block (self\<lparr>buffer := b\<rparr>) block =
     (fst (compress_block self block), (snd (compress_block self block))\<lparr>buffer := b\<rparr>) \<and>
   (length (state self) = 8 \<and> list_all word32 (state self) \<and> length block = 64 \<longrightarrow>
      compress_block self block =
        (Inr (), self\<lparr>state := map uint (spec_compress (map word_of_int (state self)) block)\<rparr>))"
proof -
  have main: "compress_block self block =
      (Inr (), self\<lparr>state := map uint (spec_compress (map word_of_int (state self)) block)\<rparr>)"
    if len: "length (state self) = 8" and w: "list_all word32 (state self)"
      and blk: "length block = 64"
  proof -
    let ?st = "map word_of_int (state self) :: 32 word list"
    have st: "map uint ?st = state self" using w by (rule map_uint_word_of_int)
    have "length ?st = 8" using len by simp
    then have "compress_state (map uint ?st) block = map uint (spec_compress ?st block)"
      using blk by (rule compress_state_spec)
    then have "compress_state (state self) block = map uint (spec_compress ?st block)"
      by (simp only: st)
    then show ?thesis using len by (simp add: compress_block_alt)
  qed
  have frame: "buffer (snd (compress_block self block)) = buffer self"
      "counter (snd (compress_block self block)) = counter self"
    by (simp_all add: compress_block_alt)
  show ?thesis
    using main frame compress_block_buffer_upd [where self = self and x = b and block = block] by blast
qed

theorem compress_block_refines_spec_witness:
  "length (state SimpleHash256) = 8 \<and> list_all word32 (state SimpleHash256) \<and>
   length (replicate 64 (0 :: byte)) = 64 \<and>
   compress_block SimpleHash256 (replicate 64 0) =
     (Inr (), SimpleHash256\<lparr>state :=
        map uint (spec_compress (map word_of_int (state SimpleHash256)) (replicate 64 0))\<rparr>)"
proof -
  have h: "length (state SimpleHash256) = 8 \<and> list_all word32 (state SimpleHash256) \<and>
      length (replicate 64 (0 :: byte)) = 64"
    by (simp add: SimpleHash256_def reset_def INITIAL_HASH_def word32_def)
  note inst = compress_block_refines_spec
      [where self = SimpleHash256 and block = "replicate 64 0" and b = "[]"]
  have "compress_block SimpleHash256 (replicate 64 0) =
     (Inr (), SimpleHash256\<lparr>state :=
        map uint (spec_compress (map word_of_int (state SimpleHash256)) (replicate 64 0))\<rparr>)"
    by (rule inst [THEN conjunct2, THEN conjunct2, THEN conjunct2, THEN mp, OF h])
  then show ?thesis using h by (intro conjI) blast+
qed

end
